theory Spec2Isabelle
  imports Complex_Main
begin

section \<open>The CSS selector builder of 05-objects-tasks.js\<close>

text \<open>
  The file holds the class \<open>CssBuilder\<close> with its facade \<open>cssSelectorBuilder\<close>, and three
  helpers: \<open>Rectangle\<close> with \<open>getArea\<close>, \<open>getJSON\<close> and \<open>fromJSON\<close>. The builder comes
  first, the helpers after it.
\<close>

subsection \<open>Data model\<close>

text \<open>
  The object \<open>this.selectors\<close> only ever receives the six property names listed in
  \<open>this.names\<close>; they are the constructors of \<open>kind\<close>, \<open>K_id\<close> for the key \<open>'id'\<close> and so
  on. A property value is either a string (element, id, pseudoElement) or an array of
  strings (class, attr, pseudoClass). A JavaScript object enumerates its string keys in
  the order they were first assigned, so the object is an association list in that order.
\<close>

datatype kind = K_element | K_id | K_class | K_attr | K_pseudoClass | K_pseudoElement

datatype entry = Str string | Arr "string list"

type_synonym object = "(kind \<times> entry) list"

text \<open>
  The fields \<open>names\<close>, \<open>repeatError\<close> and \<open>positionError\<close> are set by the constructor
  and never assigned again: \<open>names\<close> is a constant, and an \<open>Error\<close> thrown with one of the
  two messages is \<open>RepeatError\<close> (a singular kind given twice) or \<open>PositionError\<close> (kinds
  out of order). \<open>TypeError\<close> is the error of the runtime for a method call on a value that
  has no such method. \<open>combinationString\<close> is never read. The mutable fields are
  \<open>selectors\<close> and \<open>complex\<close>.
\<close>

record CssBuilder =
  selectors :: object
  complex :: "string list"

datatype error = RepeatError | PositionError | TypeError

definition names :: "kind list" where
  "names = [K_element, K_id, K_class, K_attr, K_pseudoClass, K_pseudoElement]"

definition new_CssBuilder :: CssBuilder where
  "new_CssBuilder = \<lparr>selectors = [], complex = []\<rparr>"

subsection \<open>The operations of the JavaScript runtime that the class uses\<close>

definition hasOwnProperty :: "object \<Rightarrow> kind \<Rightarrow> bool" where
  "hasOwnProperty obj k = (k \<in> set (map fst obj))"

definition Object_keys :: "object \<Rightarrow> kind list" where
  "Object_keys obj = map fst obj"

definition Object_values :: "object \<Rightarrow> entry list" where
  "Object_values obj = map snd obj"

text \<open>Assignment to a property: an existing key keeps its place, a new key goes last.\<close>

fun assign :: "object \<Rightarrow> kind \<Rightarrow> entry \<Rightarrow> object" where
  "assign [] k v = [(k, v)]"
| "assign ((k', v') # rest) k v =
     (if k' = k then (k, v) # rest else (k', v') # assign rest k v)"

text \<open>\<open>indexOf\<close> answers -1 for an element that does not occur.\<close>

definition indexOf :: "'a list \<Rightarrow> 'a \<Rightarrow> int" where
  "indexOf xs x = (if x \<in> set xs then int (length (takeWhile (\<lambda>y. y \<noteq> x) xs)) else - 1)"

text \<open>\<open>flat()\<close> splices the arrays of one level and keeps the strings.\<close>

fun flat :: "entry list \<Rightarrow> string list" where
  "flat [] = []"
| "flat (Str s # es) = s # flat es"
| "flat (Arr xs # es) = xs @ flat es"

definition join :: "string list \<Rightarrow> string" where
  "join xs = concat xs"

subsection \<open>The methods of CssBuilder\<close>

text \<open>
  A method that may throw returns the outcome together with the state of \<open>this\<close> at that
  moment: an exception raised by \<open>checkPosition\<close> leaves the assignment made before it.
\<close>

definition checkValue :: "kind \<Rightarrow> CssBuilder \<Rightarrow> error + unit" where
  "checkValue string this =
     (if hasOwnProperty (selectors this) string then Inl RepeatError else Inr ())"

definition checkPosition :: "CssBuilder \<Rightarrow> error + unit" where
  "checkPosition this =
     (let keys = Object_keys (selectors this);
          currentPosition = filter (\<lambda>selector. selector \<in> set keys) names
      in if list_ex (\<lambda>index. int index > indexOf currentPosition (keys ! index))
              [0..<length keys]
         then Inl PositionError else Inr ())"

definition isSelector :: "kind \<Rightarrow> CssBuilder \<Rightarrow> CssBuilder" where
  "isSelector string this =
     (if \<not> hasOwnProperty (selectors this) string
      then this\<lparr>selectors := assign (selectors this) string (Arr [])\<rparr>
      else this)"

text \<open>
  \<open>this.selectors.k.push(s)\<close>: the array under \<open>k\<close> grows in place. A string has no
  \<open>push\<close>, and neither has \<open>undefined\<close>: the call is a TypeError there.
\<close>

definition push :: "kind \<Rightarrow> string \<Rightarrow> CssBuilder \<Rightarrow> (error + unit) \<times> CssBuilder" where
  "push k s this =
     (case map_of (selectors this) k of
        Some (Arr xs) \<Rightarrow> (Inr (), this\<lparr>selectors := assign (selectors this) k (Arr (xs @ [s]))\<rparr>)
      | _ \<Rightarrow> (Inl TypeError, this))"

definition element :: "string \<Rightarrow> CssBuilder \<Rightarrow> (error + unit) \<times> CssBuilder" where
  "element v this =
     (case checkValue K_element this of
        Inl e \<Rightarrow> (Inl e, this)
      | Inr _ \<Rightarrow>
          (let this' = this\<lparr>selectors := assign (selectors this) K_element (Str v)\<rparr>
           in (checkPosition this', this')))"

definition id_m :: "string \<Rightarrow> CssBuilder \<Rightarrow> (error + unit) \<times> CssBuilder" where
  "id_m v this =
     (case checkValue K_id this of
        Inl e \<Rightarrow> (Inl e, this)
      | Inr _ \<Rightarrow>
          (let this' = this\<lparr>selectors := assign (selectors this) K_id (Str (''#'' @ v))\<rparr>
           in (checkPosition this', this')))"

definition class_m :: "string \<Rightarrow> CssBuilder \<Rightarrow> (error + unit) \<times> CssBuilder" where
  "class_m v this =
     (case push K_class (''.'' @ v) (isSelector K_class this) of
        (Inl e, this') \<Rightarrow> (Inl e, this')
      | (Inr _, this') \<Rightarrow> (checkPosition this', this'))"

definition attr :: "string \<Rightarrow> CssBuilder \<Rightarrow> (error + unit) \<times> CssBuilder" where
  "attr v this =
     (case push K_attr (''['' @ v @ '']'') (isSelector K_attr this) of
        (Inl e, this') \<Rightarrow> (Inl e, this')
      | (Inr _, this') \<Rightarrow> (checkPosition this', this'))"

definition pseudoClass :: "string \<Rightarrow> CssBuilder \<Rightarrow> (error + unit) \<times> CssBuilder" where
  "pseudoClass v this =
     (case push K_pseudoClass ('':'' @ v) (isSelector K_pseudoClass this) of
        (Inl e, this') \<Rightarrow> (Inl e, this')
      | (Inr _, this') \<Rightarrow> (checkPosition this', this'))"

definition pseudoElement :: "string \<Rightarrow> CssBuilder \<Rightarrow> (error + unit) \<times> CssBuilder" where
  "pseudoElement v this =
     (case checkValue K_pseudoElement this of
        Inl e \<Rightarrow> (Inl e, this)
      | Inr _ \<Rightarrow>
          (let this' = this\<lparr>selectors := assign (selectors this) K_pseudoElement (Str (''::'' @ v))\<rparr>
           in (checkPosition this', this')))"

text \<open>
  \<open>complex\<close> only ever holds strings, which \<open>flat()\<close> leaves as they are.
\<close>

definition stringify :: "CssBuilder \<Rightarrow> string" where
  "stringify this =
     (if length (complex this) > 0 then join (complex this)
      else join (flat (Object_values (selectors this))))"

text \<open>
  \<open>combine\<close> reads both operands when it is called: \<open>item1\<close> and \<open>item2\<close> are the states
  of the two operand objects at that moment.
\<close>

definition combine :: "CssBuilder \<Rightarrow> string \<Rightarrow> CssBuilder \<Rightarrow> CssBuilder \<Rightarrow> CssBuilder" where
  "combine item1 combination item2 this =
     this\<lparr>complex := complex this @
       [stringify item1 @ '' '' @ combination @ '' '' @ stringify item2]\<rparr>"

subsection \<open>Fragments and chained calls on one builder\<close>

text \<open>
  A fragment is the kind of a call together with its argument; \<open>fragment_method\<close> is the
  method of that name, \<open>rendered\<close> the text that the method writes into \<open>selectors\<close>.
\<close>

type_synonym fragment = "kind \<times> string"

fun fragment_method :: "kind \<Rightarrow> string \<Rightarrow> CssBuilder \<Rightarrow> (error + unit) \<times> CssBuilder" where
  "fragment_method K_element = element"
| "fragment_method K_id = id_m"
| "fragment_method K_class = class_m"
| "fragment_method K_attr = attr"
| "fragment_method K_pseudoClass = pseudoClass"
| "fragment_method K_pseudoElement = pseudoElement"

fun rendered :: "fragment \<Rightarrow> string" where
  "rendered (K_element, v) = v"
| "rendered (K_id, v) = ''#'' @ v"
| "rendered (K_class, v) = ''.'' @ v"
| "rendered (K_attr, v) = ''['' @ v @ '']''"
| "rendered (K_pseudoClass, v) = '':'' @ v"
| "rendered (K_pseudoElement, v) = ''::'' @ v"

text \<open>A chain \<open>b.k1(v1).k2(v2)...\<close>: the first exception ends it.\<close>

fun insert_all :: "fragment list \<Rightarrow> CssBuilder \<Rightarrow> (error + unit) \<times> CssBuilder" where
  "insert_all [] this = (Inr (), this)"
| "insert_all ((k, v) # fs) this =
     (case fragment_method k v this of
        (Inl e, this') \<Rightarrow> (Inl e, this')
      | (Inr _, this') \<Rightarrow> insert_all fs this')"

text \<open>The same calls made one by one by a caller that catches every exception.\<close>

fun insert_each :: "fragment list \<Rightarrow> CssBuilder \<Rightarrow> CssBuilder" where
  "insert_each [] this = this"
| "insert_each ((k, v) # fs) this = insert_each fs (snd (fragment_method k v this))"

text \<open>The canonical position of a kind, and the kinds that may occur once only.\<close>

definition position :: "kind \<Rightarrow> int" where
  "position k = indexOf names k"

definition singular :: "kind \<Rightarrow> bool" where
  "singular k = (k = K_element \<or> k = K_id \<or> k = K_pseudoElement)"

text \<open>
  A sequence of insertions respects the canonical order when no fragment is followed by
  one of an earlier kind and no singular kind occurs twice.
\<close>

definition in_order :: "kind \<Rightarrow> kind \<Rightarrow> bool" where
  "in_order k k' = (position k < position k' \<or> (k = k' \<and> \<not> singular k))"

definition respects_order :: "fragment list \<Rightarrow> bool" where
  "respects_order fs = sorted_wrt in_order (map fst fs)"

subsection \<open>Objects and references\<close>

text \<open>
  Builders are objects: a variable holds a reference, \<open>return this\<close> returns the
  reference of the receiver, and \<open>new CssBuilder()\<close> allocates. The heap is the list of
  the builders allocated so far, a reference is an index into it. A reference that names
  no builder stands for \<open>undefined\<close>, on which a method call is a TypeError.
\<close>

type_synonym ref = nat

type_synonym heap = "CssBuilder list"

datatype call = Fragment kind string | Combine ref string ref

fun operands :: "call \<Rightarrow> ref list" where
  "operands (Fragment k v) = []"
| "operands (Combine item1 combination item2) = [item1, item2]"

definition stringify_at :: "ref \<Rightarrow> heap \<Rightarrow> error + string" where
  "stringify_at r h = (if r < length h then Inr (stringify (h ! r)) else Inl TypeError)"

text \<open>\<open>invoke c this h\<close> is the method call \<open>this.c\<close> in the heap \<open>h\<close>.\<close>

fun invoke :: "call \<Rightarrow> ref \<Rightarrow> heap \<Rightarrow> (error + ref) \<times> heap" where
  "invoke (Fragment k v) this h =
     (if this < length h
      then (case fragment_method k v (h ! this) of
              (Inl e, b) \<Rightarrow> (Inl e, h[this := b])
            | (Inr _, b) \<Rightarrow> (Inr this, h[this := b]))
      else (Inl TypeError, h))"
| "invoke (Combine item1 combination item2) this h =
     (if this < length h \<and> item1 < length h \<and> item2 < length h
      then (Inr this, h[this := combine (h ! item1) combination (h ! item2) (h ! this)])
      else (Inl TypeError, h))"

text \<open>
  The facade \<open>cssSelectorBuilder\<close>: each of its seven methods is
  \<open>new CssBuilder().c\<close>. The arguments exist before the new builder does.
\<close>

definition cssSelectorBuilder :: "call \<Rightarrow> heap \<Rightarrow> (error + ref) \<times> heap" where
  "cssSelectorBuilder c h =
     (if list_all (\<lambda>item. item < length h) (operands c)
      then invoke c (length h) (h @ [new_CssBuilder])
      else (Inl TypeError, h @ [new_CssBuilder]))"

text \<open>A statement is a call of the facade or a method call on a builder already made.\<close>

datatype statement = Facade call | Method ref call

fun exec :: "statement \<Rightarrow> heap \<Rightarrow> (error + ref) \<times> heap" where
  "exec (Facade c) h = cssSelectorBuilder c h"
| "exec (Method r c) h = invoke c r h"

text \<open>A program whose caller catches every exception and goes on.\<close>

fun run :: "statement list \<Rightarrow> heap \<Rightarrow> heap" where
  "run [] h = h"
| "run (s # ss) h = run ss (snd (exec s h))"

text \<open>
  A program none of whose calls raised: the references its calls returned, in order, and
  the final heap; \<open>None\<close> when some call raised.
\<close>

fun run_returning :: "statement list \<Rightarrow> heap \<Rightarrow> (ref list \<times> heap) option" where
  "run_returning [] h = Some ([], h)"
| "run_returning (s # ss) h =
     (case exec s h of
        (Inl e, h') \<Rightarrow> None
      | (Inr r, h') \<Rightarrow>
          (case run_returning ss h' of
             None \<Rightarrow> None
           | Some (rs, h'') \<Rightarrow> Some (r # rs, h'')))"

text \<open>A fluent expression \<open>cssSelectorBuilder.c.c1.c2...\<close>: the first exception ends it.\<close>

fun chained :: "call list \<Rightarrow> ref \<Rightarrow> heap \<Rightarrow> (error + ref) \<times> heap" where
  "chained [] r h = (Inr r, h)"
| "chained (c # cs) r h =
     (case invoke c r h of
        (Inl e, h') \<Rightarrow> (Inl e, h')
      | (Inr r', h') \<Rightarrow> chained cs r' h')"

definition fluent :: "call \<Rightarrow> call list \<Rightarrow> heap \<Rightarrow> (error + ref) \<times> heap" where
  "fluent c cs h =
     (case cssSelectorBuilder c h of
        (Inl e, h') \<Rightarrow> (Inl e, h')
      | (Inr r, h') \<Rightarrow> chained cs r h')"

subsection \<open>Notions used in the statements and proofs\<close>

text \<open>
  A singular kind holds a string and a repeatable kind an array; a builder is canonical
  when, besides, its keys stand in the canonical order.
\<close>

definition well_typed :: "object \<Rightarrow> bool" where
  "well_typed obj =
     list_all (\<lambda>(k, e). case e of Str s \<Rightarrow> singular k | Arr xs \<Rightarrow> \<not> singular k) obj"

definition canonical :: "CssBuilder \<Rightarrow> bool" where
  "canonical this =
     (sorted_wrt (\<lambda>a b. position a < position b) (Object_keys (selectors this)) \<and>
      well_typed (selectors this))"

text \<open>The builder a statement is called on, and the statements that combine on \<open>r\<close>.\<close>

fun receiver :: "statement \<Rightarrow> ref option" where
  "receiver (Facade c) = None"
| "receiver (Method r c) = Some r"

fun combines_on :: "ref \<Rightarrow> statement \<Rightarrow> bool" where
  "combines_on r (Method r' (Combine item1 combination item2)) = (r' = r)"
| "combines_on r (Method r' (Fragment k v)) = False"
| "combines_on r (Facade c) = False"

text \<open>The outcome of a call without the reference it returned.\<close>

definition outcome :: "error + ref \<Rightarrow> error + unit" where
  "outcome res = (case res of Inl e \<Rightarrow> Inl e | Inr r \<Rightarrow> Inr ())"

subsection \<open>Rendering as the runtime evaluates it\<close>

text \<open>
  \<open>flat()\<close> and \<open>join('')\<close> are methods of the runtime that accept an array of any
  values, and \<open>join\<close> raises a TypeError when it has to convert a symbol into a string.
  \<open>js\<close> collects the values that the two methods tell apart (numbers and other objects do
  not occur in a builder). \<open>join\<close> writes \<open>undefined\<close> and \<open>null\<close> as the empty string and
  every other element by \<open>ToString\<close>, which for an array is its \<open>join(',')\<close>; the first
  element that cannot be converted raises.
\<close>

datatype js = V_undefined | V_null | V_string string | V_array "js list" | V_symbol

fun join_results :: "string \<Rightarrow> (error + string) list \<Rightarrow> error + string" where
  "join_results sep [] = Inr []"
| "join_results sep [r] = r"
| "join_results sep (r # rs) =
     (case r of
        Inl e \<Rightarrow> Inl e
      | Inr s \<Rightarrow> (case join_results sep rs of Inl e \<Rightarrow> Inl e | Inr t \<Rightarrow> Inr (s @ sep @ t)))"

fun ToString :: "js \<Rightarrow> error + string" where
  "ToString V_undefined = Inr ''undefined''"
| "ToString V_null = Inr ''null''"
| "ToString (V_string s) = Inr s"
| "ToString V_symbol = Inl TypeError"
| "ToString (V_array xs) =
     join_results '',''
       (map (\<lambda>x. if x = V_undefined \<or> x = V_null then Inr [] else ToString x) xs)"

definition join_js :: "js list \<Rightarrow> string \<Rightarrow> error + string" where
  "join_js xs sep =
     join_results sep
       (map (\<lambda>x. if x = V_undefined \<or> x = V_null then Inr [] else ToString x) xs)"

text \<open>\<open>flat()\<close> with its default depth 1.\<close>

fun flat_js :: "js list \<Rightarrow> js list" where
  "flat_js [] = []"
| "flat_js (V_array ys # xs) = ys @ flat_js xs"
| "flat_js (x # xs) = x # flat_js xs"

text \<open>
  The body of \<open>stringify\<close> on the runtime values of \<open>this.complex\<close> and
  \<open>this.selectors\<close>.
\<close>

definition stringify_js :: "js list \<Rightarrow> (kind \<times> js) list \<Rightarrow> error + string" where
  "stringify_js complex_v selectors_v =
     (if length complex_v > 0 then join_js (flat_js complex_v) ''''
      else join_js (flat_js (map snd selectors_v)) '''')"





section \<open>Rectangle, getJSON and fromJSON\<close>

subsection \<open>Numbers and values\<close>

text \<open>
  A number of the runtime is a finite value, \<open>NaN\<close> or one of the two infinities. The
  finite values are taken as reals: the rounding of a product of two finite values is
  left out, and the statements below apply the same product to the same operands on
  both sides. The product with \<open>NaN\<close> is \<open>NaN\<close>, an infinity times zero is \<open>NaN\<close>, and an
  infinity times anything else is the infinity of the product's sign.
\<close>

datatype number = Finite real | NaN | PosInfinity | NegInfinity

fun negative :: "number \<Rightarrow> bool" where
  "negative (Finite x) = (x < 0)"
| "negative NegInfinity = True"
| "negative PosInfinity = False"
| "negative NaN = False"

fun multiply :: "number \<Rightarrow> number \<Rightarrow> number" where
  "multiply NaN b = NaN"
| "multiply a NaN = NaN"
| "multiply (Finite x) (Finite y) = Finite (x * y)"
| "multiply a b =
     (if a = Finite 0 \<or> b = Finite 0 then NaN
      else if negative a = negative b then PosInfinity else NegInfinity)"

text \<open>
  The values of the properties of a rectangle-like object: a number, \<open>null\<close> or
  \<open>undefined\<close>. The operator \<open>*\<close> converts its operands by \<open>ToNumber\<close>.
\<close>

datatype jsvalue = Number number | Null | Undefined

fun ToNumber :: "jsvalue \<Rightarrow> number" where
  "ToNumber (Number n) = n"
| "ToNumber Null = Finite 0"
| "ToNumber Undefined = NaN"

type_synonym plain_object = "(string \<times> jsvalue) list"

definition Object_values_plain :: "plain_object \<Rightarrow> jsvalue list" where
  "Object_values_plain obj = map snd obj"

subsection \<open>Rectangle\<close>

record Rectangle =
  width :: jsvalue
  height :: jsvalue

text \<open>
  The constructor, called with a list of arguments: a parameter without an argument is
  \<open>undefined\<close>, arguments beyond the second are ignored.
\<close>

fun argument :: "jsvalue list \<Rightarrow> nat \<Rightarrow> jsvalue" where
  "argument [] n = Undefined"
| "argument (x # xs) 0 = x"
| "argument (x # xs) (Suc n) = argument xs n"

definition Rectangle_constructor :: "jsvalue list \<Rightarrow> Rectangle" where
  "Rectangle_constructor arguments =
     \<lparr>width = argument arguments 0, height = argument arguments 1\<rparr>"

definition getArea :: "Rectangle \<Rightarrow> number" where
  "getArea this = multiply (ToNumber (width this)) (ToNumber (height this))"

text \<open>A prototype gives its constructor.\<close>

record 'a prototype =
  constructor :: "jsvalue list \<Rightarrow> 'a"

definition Rectangle_prototype :: "Rectangle prototype" where
  "Rectangle_prototype = \<lparr>constructor = Rectangle_constructor\<rparr>"

subsection \<open>The built-in JSON object\<close>

text \<open>
  \<open>JSON.stringify\<close> and \<open>JSON.parse\<close> belong to the runtime; they are modelled from
  their documentation, for objects whose properties hold numbers, \<open>null\<close> or \<open>undefined\<close>.
  \<open>JSON.stringify\<close> writes the properties in the order of the object, leaves out a
  property that is \<open>undefined\<close>, writes a finite number as a numeral and writes \<open>NaN\<close>, the
  infinities and \<open>null\<close> as \<open>null\<close>. \<open>JSON.parse\<close> reads a numeral as that finite number,
  \<open>null\<close> as \<open>null\<close>, and keeps the order of the members. A JSON text is represented by
  the members it spells: the numeral that \<open>JSON.stringify\<close> writes for a finite number is
  one that \<open>JSON.parse\<close> reads back as the same number, and a text written by
  \<open>JSON.stringify\<close> is never malformed.
\<close>

datatype json = JSON_numeral real | JSON_null

type_synonym json_text = "(string \<times> json) list"

fun JSON_stringify :: "plain_object \<Rightarrow> json_text" where
  "JSON_stringify [] = []"
| "JSON_stringify ((key, Undefined) # rest) = JSON_stringify rest"
| "JSON_stringify ((key, Null) # rest) = (key, JSON_null) # JSON_stringify rest"
| "JSON_stringify ((key, Number (Finite x)) # rest) = (key, JSON_numeral x) # JSON_stringify rest"
| "JSON_stringify ((key, Number n) # rest) = (key, JSON_null) # JSON_stringify rest"

fun JSON_parse :: "json_text \<Rightarrow> plain_object" where
  "JSON_parse [] = []"
| "JSON_parse ((key, JSON_numeral x) # rest) = (key, Number (Finite x)) # JSON_parse rest"
| "JSON_parse ((key, JSON_null) # rest) = (key, Null) # JSON_parse rest"

subsection \<open>getJSON and fromJSON\<close>

definition getJSON :: "plain_object \<Rightarrow> json_text" where
  "getJSON obj = JSON_stringify obj"

definition fromJSON :: "'a prototype \<Rightarrow> json_text \<Rightarrow> 'a" where
  "fromJSON proto json =
     (let obj = JSON_parse json;
          values = Object_values_plain obj
      in constructor proto values)"

section \<open>Properties\<close>

subsection \<open>Objects, positions and the order check\<close>

lemma keys_assign:
  "map fst (assign obj k v) = (if k \<in> set (map fst obj) then map fst obj else map fst obj @ [k])"
  by (induction obj) (auto simp: rev_image_eqI)

lemma map_of_assign:
  "map_of (assign obj k v) k' = (if k' = k then Some v else map_of obj k')"
  by (induction obj) auto

lemma assign_absent: "k \<notin> set (map fst obj) \<Longrightarrow> assign obj k v = obj @ [(k, v)]"
  by (induction obj) auto

lemma assign_last: "k \<notin> set (map fst obj) \<Longrightarrow> assign (obj @ [(k, e)]) k v = obj @ [(k, v)]"
  by (induction obj) auto

lemma flat_append: "flat (xs @ ys) = flat xs @ flat ys"
  by (induction xs rule: flat.induct) auto

lemma position_simps:
  "position K_element = 0" "position K_id = 1" "position K_class = 2"
  "position K_attr = 3" "position K_pseudoClass = 4" "position K_pseudoElement = 5"
  by (simp_all add: position_def indexOf_def names_def)

lemma position_inj: "position k = position k' \<Longrightarrow> k = k'"
  by (cases k; cases k'; simp add: position_simps)

lemma set_names: "k \<in> set names"
  by (cases k) (simp_all add: names_def)

lemma distinct_names: "distinct names"
  by (simp add: names_def)

lemma sorted_names: "sorted_wrt (\<lambda>a b. position a < position b) names"
  by (simp add: names_def position_simps)

lemma sorted_wrt_filter_keep: "sorted_wrt R xs \<Longrightarrow> sorted_wrt R (filter P xs)"
  by (induction xs) auto

lemma strictly_sorted_unique:
  assumes "sorted_wrt (\<lambda>a b. position a < position b) xs"
    and "sorted_wrt (\<lambda>a b. position a < position b) ys"
    and "set xs = set ys"
  shows "xs = ys"
proof -
  have sx: "sorted_wrt (<) (map position xs)" and sy: "sorted_wrt (<) (map position ys)"
    using assms(1,2) by (simp_all add: sorted_wrt_map)
  have "map position xs = map position ys"
    using sx sy assms(3)
    by (intro sorted_distinct_set_unique) (auto simp: strict_sorted_iff)
  moreover have "inj position"
    by (rule injI) (rule position_inj)
  ultimately show ?thesis
    by (simp add: inj_map_eq_map)
qed

lemma currentPosition_sorted:
  assumes "sorted_wrt (\<lambda>a b. position a < position b) ks"
  shows "filter (\<lambda>selector. selector \<in> set ks) names = ks"
proof (rule strictly_sorted_unique)
  show "sorted_wrt (\<lambda>a b. position a < position b) (filter (\<lambda>selector. selector \<in> set ks) names)"
    by (rule sorted_wrt_filter_keep) (rule sorted_names)
  show "sorted_wrt (\<lambda>a b. position a < position b) ks" by fact
  show "set (filter (\<lambda>selector. selector \<in> set ks) names) = set ks"
    using set_names by auto
qed

lemma indexOf_nth: "distinct xs \<Longrightarrow> i < length xs \<Longrightarrow> indexOf xs (xs ! i) = int i"
proof -
  assume d: "distinct xs" and i: "i < length xs"
  have "takeWhile (\<lambda>y. y \<noteq> xs ! i) xs = take i xs"
    using d i by (intro takeWhile_eq_take_P_nth) (auto simp: nth_eq_iff_index_eq)
  then show ?thesis using i by (simp add: indexOf_def)
qed

lemma strictly_sorted_distinct:
  "sorted_wrt (\<lambda>a b. position a < position b) ks \<Longrightarrow> distinct ks"
  by (induction ks) auto

lemma checkPosition_keys:
  "map fst (selectors a) = map fst (selectors b) \<Longrightarrow> checkPosition a = checkPosition b"
  by (simp add: checkPosition_def Object_keys_def)

lemma no_index_late:
  assumes "distinct ks"
  shows "\<not> list_ex (\<lambda>index. int index > indexOf ks (ks ! index)) [0..<length ks]"
proof -
  have "indexOf ks (ks ! i) = int i" if "i < length ks" for i
    using assms that by (rule indexOf_nth)
  then show ?thesis
    by (simp add: list_ex_iff)
qed

lemma checkPosition_sorted:
  assumes "sorted_wrt (\<lambda>a b. position a < position b) (map fst (selectors this))"
  shows "checkPosition this = Inr ()"
proof -
  define ks where "ks = map fst (selectors this)"
  have s: "sorted_wrt (\<lambda>a b. position a < position b) ks"
    using assms by (simp add: ks_def)
  then have "distinct ks"
    by (rule strictly_sorted_distinct)
  then have "\<not> list_ex (\<lambda>index. int index > indexOf ks (ks ! index)) [0..<length ks]"
    by (rule no_index_late)
  moreover have "filter (\<lambda>selector. selector \<in> set ks) names = ks"
    using s by (rule currentPosition_sorted)
  ultimately show ?thesis
    unfolding checkPosition_def Object_keys_def Let_def ks_def [symmetric] by simp
qed

lemma checkPosition_late:
  assumes keys: "map fst (selectors this) = ks @ [k]"
    and new: "k \<notin> set ks"
    and later: "k' \<in> set ks" "position k < position k'"
  shows "checkPosition this = Inl PositionError"
proof -
  let ?cp = "filter (\<lambda>selector. selector \<in> set (ks @ [k])) names"
  let ?tw = "takeWhile (\<lambda>y. y \<noteq> k) ?cp"
  have cp_sorted: "sorted_wrt (\<lambda>a b. position a < position b) ?cp"
    by (rule sorted_wrt_filter_keep) (rule sorted_names)
  have k_in: "k \<in> set ?cp"
    using set_names by simp
  then have split: "?cp = ?tw @ k # tl (dropWhile (\<lambda>y. y \<noteq> k) ?cp)"
    by (metis (mono_tags, lifting) dropWhile_eq_Nil_conv hd_dropWhile list.collapse
        takeWhile_dropWhile_id)
  have before: "position x < position k" if "x \<in> set ?tw" for x
  proof -
    have "sorted_wrt (\<lambda>a b. position a < position b) (?tw @ k # tl (dropWhile (\<lambda>y. y \<noteq> k) ?cp))"
      using cp_sorted split by simp
    then show ?thesis
      using that by (simp add: sorted_wrt_append)
  qed
  have "set ?tw \<subseteq> set ks - {k'}"
  proof
    fix x assume x: "x \<in> set ?tw"
    then have "x \<in> set ?cp" by (rule set_takeWhileD [THEN conjunct1])
    moreover have "x \<noteq> k" using x by (rule set_takeWhileD [THEN conjunct2])
    moreover have "x \<noteq> k'" using before [OF x] later(2) by auto
    ultimately show "x \<in> set ks - {k'}" by auto
  qed
  then have "card (set ?tw) \<le> card (set ks - {k'})"
    by (intro card_mono) auto
  also have "\<dots> < card (set ks)"
    using later(1) by (intro card_Diff1_less) auto
  also have "\<dots> \<le> length ks"
    by (rule card_length)
  finally have "card (set ?tw) < length ks" .
  moreover have "distinct ?tw"
    using distinct_names by (intro distinct_takeWhile) simp
  ultimately have "length ?tw < length ks"
    by (simp add: distinct_card)
  then have "int (length ks) > indexOf ?cp ((ks @ [k]) ! length ks)"
    using k_in by (simp add: indexOf_def)
  then have "list_ex (\<lambda>index. int index > indexOf ?cp ((ks @ [k]) ! index)) [0..<length (ks @ [k])]"
    unfolding list_ex_iff by (intro bexI [of _ "length ks"]) auto
  then show ?thesis
    using keys by (simp add: checkPosition_def Object_keys_def)
qed

lemma hasOwnProperty_map_of: "hasOwnProperty obj k \<longleftrightarrow> map_of obj k \<noteq> None"
  by (simp add: hasOwnProperty_def map_of_eq_None_iff)

lemma fragment_method_singular:
  assumes "singular k"
  shows "fragment_method k v this =
    (if hasOwnProperty (selectors this) k then (Inl RepeatError, this)
     else (checkPosition (this\<lparr>selectors := selectors this @ [(k, Str (rendered (k, v)))]\<rparr>),
           this\<lparr>selectors := selectors this @ [(k, Str (rendered (k, v)))]\<rparr>))"
  using assms
  by (cases k)
    (simp_all add: singular_def element_def id_m_def pseudoElement_def checkValue_def
      hasOwnProperty_def assign_absent Let_def)

lemma push_isSelector:
  "push k s (isSelector k this) =
     (case map_of (selectors this) k of
        None \<Rightarrow> (Inr (), this\<lparr>selectors := selectors this @ [(k, Arr [s])]\<rparr>)
      | Some (Str s') \<Rightarrow> (Inl TypeError, this)
      | Some (Arr xs) \<Rightarrow> (Inr (), this\<lparr>selectors := assign (selectors this) k (Arr (xs @ [s]))\<rparr>))"
proof (cases "map_of (selectors this) k")
  case None
  then have absent: "k \<notin> set (map fst (selectors this))"
    by (simp add: map_of_eq_None_iff)
  then have "assign (selectors this @ [(k, Arr [])]) k (Arr [s]) = selectors this @ [(k, Arr [s])]"
    by (rule assign_last)
  then show ?thesis
    using None absent
    by (simp add: push_def isSelector_def hasOwnProperty_def assign_absent map_add_def)
next
  case (Some e)
  then have "hasOwnProperty (selectors this) k"
    by (simp add: hasOwnProperty_map_of)
  then show ?thesis
    using Some by (cases e) (simp_all add: push_def isSelector_def)
qed

lemma fragment_method_repeatable:
  assumes "\<not> singular k"
  shows "fragment_method k v this =
    (case map_of (selectors this) k of
       None \<Rightarrow>
         (checkPosition (this\<lparr>selectors := selectors this @ [(k, Arr [rendered (k, v)])]\<rparr>),
          this\<lparr>selectors := selectors this @ [(k, Arr [rendered (k, v)])]\<rparr>)
     | Some (Str s) \<Rightarrow> (Inl TypeError, this)
     | Some (Arr xs) \<Rightarrow>
         (checkPosition (this\<lparr>selectors := assign (selectors this) k (Arr (xs @ [rendered (k, v)]))\<rparr>),
          this\<lparr>selectors := assign (selectors this) k (Arr (xs @ [rendered (k, v)]))\<rparr>))"
  using assms
  by (cases k)
    (simp_all add: singular_def class_m_def attr_def pseudoClass_def push_isSelector
      split: option.splits entry.splits)

lemma complex_fragment_method: "complex (snd (fragment_method k v this)) = complex this"
proof (cases "singular k")
  case True
  then show ?thesis by (simp add: fragment_method_singular)
next
  case False
  then show ?thesis by (simp add: fragment_method_repeatable split: option.splits entry.splits)
qed

lemma fragment_method_late:
  assumes absent: "\<not> hasOwnProperty (selectors this) k"
    and later: "k' \<in> set (Object_keys (selectors this))" "position k < position k'"
  shows "fst (fragment_method k v this) = Inl PositionError"
proof -
  have new: "k \<notin> set (map fst (selectors this))"
    using absent by (simp add: hasOwnProperty_def)
  have k': "k' \<in> set (map fst (selectors this))"
    using later(1) by (simp add: Object_keys_def)
  have late: "checkPosition (this\<lparr>selectors := selectors this @ [(k, e)]\<rparr>) = Inl PositionError" for e
    by (rule checkPosition_late [OF _ new k' later(2)]) simp
  show ?thesis
  proof (cases "singular k")
    case True
    then show ?thesis
      using absent late by (simp add: fragment_method_singular)
  next
    case False
    moreover have "map_of (selectors this) k = None"
      using new by (simp add: map_of_eq_None_iff)
    ultimately show ?thesis
      using late by (simp add: fragment_method_repeatable)
  qed
qed

lemma fragment_method_repeat:
  assumes "singular k" "hasOwnProperty (selectors this) k"
  shows "fragment_method k v this = (Inl RepeatError, this)"
  using assms by (simp add: fragment_method_singular)

lemma fragment_method_again:
  assumes "\<not> singular k" "map_of (selectors this) k = Some (Arr xs)"
  shows "fst (fragment_method k v this) = checkPosition this"
proof -
  have "k \<in> set (map fst (selectors this))"
    using assms(2) by (metis map_of_eq_None_iff option.distinct(1) list.set_map)
  then have "checkPosition (this\<lparr>selectors := assign (selectors this) k e\<rparr>) = checkPosition this" for e
    by (intro checkPosition_keys) (simp add: keys_assign)
  then show ?thesis
    using assms by (simp add: fragment_method_repeatable)
qed

lemma hasOwnProperty_assign:
  "hasOwnProperty (assign obj k e) k' \<longleftrightarrow> k' = k \<or> hasOwnProperty obj k'"
  by (auto simp: hasOwnProperty_def keys_assign)

lemma hasOwnProperty_append:
  "hasOwnProperty (obj @ [(k, e)]) k' \<longleftrightarrow> k' = k \<or> hasOwnProperty obj k'"
  by (auto simp: hasOwnProperty_def)

lemma hasOwnProperty_kept:
  assumes "hasOwnProperty (selectors this) k"
  shows "hasOwnProperty (selectors (snd (fragment_method k' v this))) k"
proof (cases "singular k'")
  case True
  then show ?thesis
    using assms by (simp add: fragment_method_singular hasOwnProperty_append)
next
  case False
  then show ?thesis
    using assms
    by (simp add: fragment_method_repeatable hasOwnProperty_append hasOwnProperty_assign
        split: option.splits entry.splits)
qed

lemma hasOwnProperty_singular_called:
  assumes "singular k"
  shows "hasOwnProperty (selectors (snd (fragment_method k v this))) k"
  using assms by (simp add: fragment_method_singular hasOwnProperty_append)

lemma singular_entry_kept:
  assumes "singular k" "map_of (selectors this) k = Some e"
  shows "map_of (selectors (snd (fragment_method k' v this))) k = Some e"
proof (cases "singular k'")
  case True
  then show ?thesis
    using assms(2) by (simp add: fragment_method_singular map_add_def)
next
  case False
  then have "k' \<noteq> k" using assms(1) by auto
  then show ?thesis
    using assms(2) False
    by (simp add: fragment_method_repeatable map_of_assign map_add_def
        split: option.splits entry.splits)
qed

lemma singular_entry_first:
  assumes "singular k" "\<not> hasOwnProperty (selectors this) k"
  shows "map_of (selectors (snd (fragment_method k v this))) k = Some (Str (rendered (k, v)))"
  using assms by (simp add: fragment_method_singular map_add_def hasOwnProperty_map_of)

lemma canonical_new: "canonical new_CssBuilder"
  by (simp add: canonical_def new_CssBuilder_def Object_keys_def well_typed_def)

lemma in_order_earlier:
  "in_order k' k \<Longrightarrow> k' \<noteq> k \<Longrightarrow> position k' < position k"
  by (auto simp: in_order_def)

lemma last_key:
  assumes sorted: "sorted_wrt (\<lambda>a b. position a < position b) (map fst obj)"
    and present: "k \<in> set (map fst obj)"
    and largest: "\<forall>k'\<in>set (map fst obj). position k' \<le> position k"
  shows "\<exists>rest e. obj = rest @ [(k, e)] \<and> k \<notin> set (map fst rest)"
proof (cases obj rule: rev_cases)
  case Nil
  then show ?thesis using present by simp
next
  case (snoc rest p)
  obtain k0 e where p: "p = (k0, e)" by (cases p)
  have before: "\<forall>x\<in>set (map fst rest). position x < position k0"
    using sorted snoc p by (simp add: sorted_wrt_append)
  have "k = k0"
  proof (rule ccontr)
    assume "k \<noteq> k0"
    then have "k \<in> set (map fst rest)" using present snoc p by auto
    then have "position k < position k0" using before by blast
    moreover have "position k0 \<le> position k" using largest snoc p by simp
    ultimately show False by simp
  qed
  moreover have "k0 \<notin> set (map fst rest)"
    using before by auto
  ultimately show ?thesis
    using snoc p by blast
qed

lemma step_new_key:
  assumes can: "canonical this"
    and before: "\<forall>k'\<in>set (Object_keys (selectors this)). in_order k' k"
    and absent: "k \<notin> set (Object_keys (selectors this))"
    and typed: "case e of Str s \<Rightarrow> singular k | Arr xs \<Rightarrow> \<not> singular k"
  shows "canonical (this\<lparr>selectors := selectors this @ [(k, e)]\<rparr>)"
proof -
  have "\<forall>k'\<in>set (Object_keys (selectors this)). position k' < position k"
    using before absent in_order_earlier by metis
  then show ?thesis
    using can typed by (simp add: canonical_def Object_keys_def sorted_wrt_append well_typed_def)
qed

lemma fragment_method_in_order:
  assumes can: "canonical this"
    and before: "\<forall>k'\<in>set (Object_keys (selectors this)). in_order k' k"
  shows "fst (fragment_method k v this) = Inr () \<and>
         canonical (snd (fragment_method k v this)) \<and>
         flat (Object_values (selectors (snd (fragment_method k v this)))) =
           flat (Object_values (selectors this)) @ [rendered (k, v)] \<and>
         set (Object_keys (selectors (snd (fragment_method k v this)))) =
           insert k (set (Object_keys (selectors this)))"
proof (cases "k \<in> set (Object_keys (selectors this))")
  case False
  then have none: "map_of (selectors this) k = None" and nohas: "\<not> hasOwnProperty (selectors this) k"
    by (simp_all add: Object_keys_def map_of_eq_None_iff hasOwnProperty_def)
  define e where "e = (if singular k then Str (rendered (k, v)) else Arr [rendered (k, v)])"
  define this' where "this' = this\<lparr>selectors := selectors this @ [(k, e)]\<rparr>"
  have can': "canonical this'"
    unfolding this'_def using can before False by (rule step_new_key) (simp add: e_def)
  then have ok: "checkPosition this' = Inr ()"
    by (simp add: canonical_def Object_keys_def checkPosition_sorted)
  have res: "fragment_method k v this = (checkPosition this', this')"
    using none nohas
    by (cases "singular k") (simp_all add: fragment_method_singular fragment_method_repeatable this'_def e_def)
  have "flat (Object_values (selectors this')) = flat (Object_values (selectors this)) @ [rendered (k, v)]"
    by (simp add: this'_def e_def Object_values_def flat_append)
  moreover have "set (Object_keys (selectors this')) = insert k (set (Object_keys (selectors this)))"
    by (simp add: this'_def Object_keys_def)
  ultimately show ?thesis
    using res ok can' by simp
next
  case True
  then have rep: "\<not> singular k"
    using before by (auto simp: in_order_def)
  have sorted: "sorted_wrt (\<lambda>a b. position a < position b) (map fst (selectors this))"
    using can by (simp add: canonical_def Object_keys_def)
  have "\<forall>k'\<in>set (map fst (selectors this)). position k' \<le> position k"
    using before by (auto simp: in_order_def Object_keys_def)
  with sorted True obtain rest e where
    sel: "selectors this = rest @ [(k, e)]" and rest: "k \<notin> set (map fst rest)"
    unfolding Object_keys_def using last_key by blast
  have "well_typed (selectors this)"
    using can by (simp add: canonical_def)
  then obtain xs where e: "e = Arr xs"
    using rep sel by (cases e) (simp_all add: well_typed_def)
  have "map_of rest k = None"
    using rest by (simp add: map_of_eq_None_iff)
  then have lookup: "map_of (selectors this) k = Some (Arr xs)"
    using sel e by (simp add: map_add_def)
  define this' where "this' = this\<lparr>selectors := rest @ [(k, Arr (xs @ [rendered (k, v)]))]\<rparr>"
  have upd: "assign (selectors this) k (Arr (xs @ [rendered (k, v)])) = rest @ [(k, Arr (xs @ [rendered (k, v)]))]"
    using rest by (simp add: sel assign_last)
  have res: "fragment_method k v this = (checkPosition this', this')"
    using rep lookup upd by (simp add: fragment_method_repeatable this'_def)
  have keys: "Object_keys (selectors this') = Object_keys (selectors this)"
    by (simp add: this'_def sel Object_keys_def)
  have "well_typed (selectors this')"
    using \<open>well_typed (selectors this)\<close> rep by (simp add: this'_def sel well_typed_def)
  then have can': "canonical this'"
    using can keys by (simp add: canonical_def)
  then have ok: "checkPosition this' = Inr ()"
    by (simp add: canonical_def Object_keys_def checkPosition_sorted)
  have "flat (Object_values (selectors this')) = flat (Object_values (selectors this)) @ [rendered (k, v)]"
    by (simp add: this'_def sel e Object_values_def flat_append)
  moreover have "set (Object_keys (selectors this')) = insert k (set (Object_keys (selectors this)))"
    using True keys by auto
  ultimately show ?thesis
    using res ok can' by simp
qed

lemma insert_all_in_order:
  assumes "canonical this"
    and "sorted_wrt in_order (map fst fs)"
    and "\<forall>k'\<in>set (Object_keys (selectors this)). \<forall>k\<in>set (map fst fs). in_order k' k"
  shows "fst (insert_all fs this) = Inr () \<and>
         flat (Object_values (selectors (snd (insert_all fs this)))) =
           flat (Object_values (selectors this)) @ map rendered fs \<and>
         complex (snd (insert_all fs this)) = complex this"
  using assms
proof (induction fs arbitrary: this)
  case Nil
  then show ?case by simp
next
  case (Cons f fs)
  obtain k v where f: "f = (k, v)" by (cases f)
  obtain res this' where step: "fragment_method k v this = (res, this')"
    by (cases "fragment_method k v this")
  have "\<forall>k'\<in>set (Object_keys (selectors this)). in_order k' k"
    using Cons.prems(3) f by simp
  from fragment_method_in_order [OF Cons.prems(1) this, of v] step
  have ok: "res = Inr ()" and can': "canonical this'"
    and fl: "flat (Object_values (selectors this')) = flat (Object_values (selectors this)) @ [rendered (k, v)]"
    and keys: "set (Object_keys (selectors this')) = insert k (set (Object_keys (selectors this)))"
    by simp_all
  have cx: "complex this' = complex this"
    using complex_fragment_method [of k v this] step by simp
  have sorted': "sorted_wrt in_order (map fst fs)"
    using Cons.prems(2) by simp
  have "\<forall>k'\<in>set (Object_keys (selectors this')). \<forall>k\<in>set (map fst fs). in_order k' k"
    using Cons.prems(2,3) keys f by auto
  from Cons.IH [OF can' sorted' this]
  show ?case
    using step ok fl cx f by simp
qed

lemma no_later_kind:
  assumes "\<forall>x\<in>set fs. position (fst x) \<le> position k0" "position k0 < position k"
  shows "filter (\<lambda>f. fst f = k) fs = []"
  using assms by (auto simp: filter_empty_conv)

lemma grouped_by_kind:
  assumes "sorted_wrt in_order (map fst fs)"
  shows "concat (map (\<lambda>k. filter (\<lambda>f. fst f = k) fs) names) = fs"
  using assms
proof (induction fs rule: rev_induct)
  case Nil
  then show ?case by (simp add: names_def)
next
  case (snoc f fs)
  have IH: "concat (map (\<lambda>k. filter (\<lambda>f. fst f = k) fs) names) = fs"
    using snoc by (simp add: sorted_wrt_append)
  have le: "\<forall>x\<in>set fs. position (fst x) \<le> position (fst f)"
    using snoc.prems by (auto simp: sorted_wrt_append in_order_def)
  note empty = no_later_kind [OF le]
  show ?case
  proof (cases "fst f")
    case K_element
    with IH empty show ?thesis by (simp add: names_def position_simps)
  next
    case K_id
    with IH empty show ?thesis by (simp add: names_def position_simps)
  next
    case K_class
    with IH empty show ?thesis by (simp add: names_def position_simps)
  next
    case K_attr
    with IH empty show ?thesis by (simp add: names_def position_simps)
  next
    case K_pseudoClass
    with IH empty show ?thesis by (simp add: names_def position_simps)
  next
    case K_pseudoElement
    with IH empty show ?thesis by (simp add: names_def position_simps)
  qed
qed

lemma rendered_grouped:
  assumes "sorted_wrt in_order (map fst fs)"
  shows "concat (map (\<lambda>k. concat (map rendered (filter (\<lambda>f. fst f = k) fs))) names) =
         concat (map rendered fs)"
proof -
  have "concat (map rendered (concat (map (\<lambda>k. filter (\<lambda>f. fst f = k) fs) names))) =
        concat (map rendered fs)"
    using assms by (simp add: grouped_by_kind)
  then show ?thesis
    by (simp add: names_def)
qed

subsection \<open>Rendering of a builder\<close>

text \<open>
  Claim C1. For every sequence of fragment insertions on a new builder that respects the
  canonical kind order (no fragment followed by one of an earlier kind, no singular kind
  twice), every call returns, and \<open>stringify()\<close> returns the concatenation of the rendered
  texts of the fragments with no separator: it is the concatenation in call order, which
  for such a sequence is the concatenation by kinds in canonical order, the fragments of
  one kind in insertion order.
\<close>

theorem stringify_in_order:
  assumes "respects_order fs"
  shows "fst (insert_all fs new_CssBuilder) = Inr () \<and>
         stringify (snd (insert_all fs new_CssBuilder)) = concat (map rendered fs) \<and>
         concat (map rendered fs) =
           concat (map (\<lambda>k. concat (map rendered (filter (\<lambda>f. fst f = k) fs))) names)"
proof -
  have sorted: "sorted_wrt in_order (map fst fs)"
    using assms by (simp add: respects_order_def)
  have "\<forall>k'\<in>set (Object_keys (selectors new_CssBuilder)). \<forall>k\<in>set (map fst fs). in_order k' k"
    by (simp add: new_CssBuilder_def Object_keys_def)
  from insert_all_in_order [OF canonical_new sorted this]
  have ok: "fst (insert_all fs new_CssBuilder) = Inr ()"
    and fl: "flat (Object_values (selectors (snd (insert_all fs new_CssBuilder)))) = map rendered fs"
    and cx: "complex (snd (insert_all fs new_CssBuilder)) = []"
    by (simp_all add: new_CssBuilder_def Object_values_def)
  have "stringify (snd (insert_all fs new_CssBuilder)) = concat (map rendered fs)"
    using fl cx by (simp add: stringify_def join_def)
  then show ?thesis
    using ok rendered_grouped [OF sorted] by simp
qed

text \<open>The example \<open>id('main').class('container').class('editable')\<close> of the source.\<close>

theorem stringify_in_order_witness:
  "respects_order [(K_id, ''main''), (K_class, ''container''), (K_class, ''editable'')] \<and>
   fst (insert_all [(K_id, ''main''), (K_class, ''container''), (K_class, ''editable'')]
          new_CssBuilder) = Inr () \<and>
   stringify (snd (insert_all [(K_id, ''main''), (K_class, ''container''), (K_class, ''editable'')]
          new_CssBuilder)) = ''#main.container.editable''"
proof -
  have h: "respects_order [(K_id, ''main''), (K_class, ''container''), (K_class, ''editable'')]"
    by (simp add: respects_order_def in_order_def position_simps singular_def)
  show ?thesis
    using h stringify_in_order [OF h] by simp
qed

subsection \<open>The order check\<close>

text \<open>
  Claim C2 says that a call adding a fragment of a kind earlier than one already added
  raises the order error, also when the earlier kind is repeatable and already present,
  as in \<open>class(..).attr(..).class(..)\<close>. The second \<open>class\<close> call there returns, and the
  builder renders both classes before the attribute.
\<close>

theorem class_after_attr_counterexample:
  "fst (class_m ''c'' (snd (attr ''b'' (snd (class_m ''a'' new_CssBuilder))))) = Inr () \<and>
   stringify (snd (class_m ''c'' (snd (attr ''b'' (snd (class_m ''a'' new_CssBuilder)))))) = ''.a.c[b]''"
  by code_simp

lemma canonical_repeatable_entry:
  assumes "canonical this" "\<not> singular k" "hasOwnProperty (selectors this) k"
  shows "\<exists>xs. map_of (selectors this) k = Some (Arr xs)"
proof -
  obtain e where e: "map_of (selectors this) k = Some e"
    using assms(3) by (auto simp: hasOwnProperty_map_of)
  then have "(k, e) \<in> set (selectors this)"
    by (rule map_of_SomeD)
  moreover have "well_typed (selectors this)"
    using assms(1) by (simp add: canonical_def)
  ultimately have "case e of Str s \<Rightarrow> singular k | Arr xs \<Rightarrow> \<not> singular k"
    by (auto simp: well_typed_def list_all_iff)
  then show ?thesis
    using assms(2) e by (cases e) simp_all
qed

text \<open>
  Claim C2, as the code has it. \<open>checkPosition\<close> compares the keys of \<open>selectors\<close>, in
  the order in which they were first assigned, with the canonical order. For every builder:
  a call adding a fragment of a kind that is not yet on the builder, while a strictly later
  kind is, raises \<open>PositionError\<close> (the order error). When the kind is already on the
  builder the later kinds are not looked at: a singular kind raises \<open>RepeatError\<close> (the
  duplicate error), and a repeatable kind gives the result of \<open>checkPosition\<close> on the
  builder as it was before the call, which is success on a canonical builder.
\<close>

theorem order_checked_for_new_kinds:
  "(\<not> hasOwnProperty (selectors this) k \<and> k' \<in> set (Object_keys (selectors this)) \<and>
      position k < position k' \<longrightarrow>
      fst (fragment_method k v this) = Inl PositionError) \<and>
   (singular k \<and> hasOwnProperty (selectors this) k \<longrightarrow>
      fst (fragment_method k v this) = Inl RepeatError) \<and>
   (\<not> singular k \<and> map_of (selectors this) k = Some (Arr xs) \<longrightarrow>
      fst (fragment_method k v this) = checkPosition this) \<and>
   (\<not> singular k \<and> hasOwnProperty (selectors this) k \<and> canonical this \<longrightarrow>
      fst (fragment_method k v this) = Inr ())"
proof (intro conjI impI)
  assume "\<not> hasOwnProperty (selectors this) k \<and> k' \<in> set (Object_keys (selectors this)) \<and>
      position k < position k'"
  then show "fst (fragment_method k v this) = Inl PositionError"
    using fragment_method_late by blast
next
  assume "singular k \<and> hasOwnProperty (selectors this) k"
  then show "fst (fragment_method k v this) = Inl RepeatError"
    by (simp add: fragment_method_repeat)
next
  assume "\<not> singular k \<and> map_of (selectors this) k = Some (Arr xs)"
  then show "fst (fragment_method k v this) = checkPosition this"
    by (simp add: fragment_method_again)
next
  assume a: "\<not> singular k \<and> hasOwnProperty (selectors this) k \<and> canonical this"
  then obtain ys where "map_of (selectors this) k = Some (Arr ys)"
    using canonical_repeatable_entry by blast
  then have "fst (fragment_method k v this) = checkPosition this"
    using a by (simp add: fragment_method_again)
  moreover have "checkPosition this = Inr ()"
    using a by (simp add: canonical_def Object_keys_def checkPosition_sorted)
  ultimately show "fst (fragment_method k v this) = Inr ()"
    by simp
qed

text \<open>
  \<open>id\<close> after \<open>class\<close> raises the order error, a second \<open>id\<close> the duplicate error, and
  \<open>class\<close> after \<open>class\<close>, \<open>attr\<close> returns.
\<close>

theorem order_checked_for_new_kinds_witness:
  "(\<not> hasOwnProperty (selectors (snd (class_m ''a'' new_CssBuilder))) K_id \<and>
    K_class \<in> set (Object_keys (selectors (snd (class_m ''a'' new_CssBuilder)))) \<and>
    position K_id < position K_class \<and>
    fst (fragment_method K_id ''x'' (snd (class_m ''a'' new_CssBuilder))) = Inl PositionError) \<and>
   (singular K_id \<and> hasOwnProperty (selectors (snd (id_m ''x'' new_CssBuilder))) K_id \<and>
    fst (fragment_method K_id ''y'' (snd (id_m ''x'' new_CssBuilder))) = Inl RepeatError) \<and>
   (\<not> singular K_class \<and>
    map_of (selectors (snd (attr ''b'' (snd (class_m ''a'' new_CssBuilder))))) K_class =
      Some (Arr [''.a'']) \<and>
    hasOwnProperty (selectors (snd (attr ''b'' (snd (class_m ''a'' new_CssBuilder))))) K_class \<and>
    canonical (snd (attr ''b'' (snd (class_m ''a'' new_CssBuilder)))) \<and>
    checkPosition (snd (attr ''b'' (snd (class_m ''a'' new_CssBuilder)))) = Inr () \<and>
    fst (fragment_method K_class ''c'' (snd (attr ''b'' (snd (class_m ''a'' new_CssBuilder))))) =
      Inr ())"
proof -
  have b1: "snd (class_m ''a'' new_CssBuilder) =
      \<lparr>selectors = [(K_class, Arr [''.a''])], complex = []\<rparr>"
    by code_simp
  have b2: "snd (id_m ''x'' new_CssBuilder) =
      \<lparr>selectors = [(K_id, Str ''#x'')], complex = []\<rparr>"
    by code_simp
  have b3: "snd (attr ''b'' (snd (class_m ''a'' new_CssBuilder))) =
      \<lparr>selectors = [(K_class, Arr [''.a'']), (K_attr, Arr [''[b]''])], complex = []\<rparr>"
    by code_simp
  have h1: "\<not> hasOwnProperty (selectors (snd (class_m ''a'' new_CssBuilder))) K_id \<and>
    K_class \<in> set (Object_keys (selectors (snd (class_m ''a'' new_CssBuilder)))) \<and>
    position K_id < position K_class"
    by (simp add: b1 hasOwnProperty_def Object_keys_def position_simps)
  have h2: "singular K_id \<and> hasOwnProperty (selectors (snd (id_m ''x'' new_CssBuilder))) K_id"
    by (simp add: b2 hasOwnProperty_def singular_def)
  have h3: "\<not> singular K_class \<and>
    map_of (selectors (snd (attr ''b'' (snd (class_m ''a'' new_CssBuilder))))) K_class =
      Some (Arr [''.a''])"
    by (simp add: b3 singular_def)
  have h4: "\<not> singular K_class \<and>
    hasOwnProperty (selectors (snd (attr ''b'' (snd (class_m ''a'' new_CssBuilder))))) K_class \<and>
    canonical (snd (attr ''b'' (snd (class_m ''a'' new_CssBuilder))))"
    by (simp add: b3 singular_def hasOwnProperty_def canonical_def Object_keys_def
        well_typed_def position_simps)
  note t1 = order_checked_for_new_kinds
    [of "snd (class_m ''a'' new_CssBuilder)" K_id K_class "''x''"]
  note t2 = order_checked_for_new_kinds
    [of "snd (id_m ''x'' new_CssBuilder)" K_id K_id "''y''"]
  note t3 = order_checked_for_new_kinds
    [of "snd (attr ''b'' (snd (class_m ''a'' new_CssBuilder)))" K_class K_class "''c''" "[''.a'']"]
  have c1: "fst (fragment_method K_id ''x'' (snd (class_m ''a'' new_CssBuilder))) = Inl PositionError"
    using t1 h1 by blast
  have c2: "fst (fragment_method K_id ''y'' (snd (id_m ''x'' new_CssBuilder))) = Inl RepeatError"
    using t2 h2 by blast
  have c4: "fst (fragment_method K_class ''c'' (snd (attr ''b'' (snd (class_m ''a'' new_CssBuilder))))) =
      Inr ()"
    using t3 h4 by blast
  have c3: "checkPosition (snd (attr ''b'' (snd (class_m ''a'' new_CssBuilder)))) = Inr ()"
    using t3 h3 c4 by metis
  show ?thesis
    using h1 h2 h3 h4 c1 c2 c3 c4 by blast
qed

subsection \<open>Statements on the heap\<close>

declare invoke.simps [simp del]

lemma invoke_Fragment:
  "this < length h \<Longrightarrow>
   invoke (Fragment k v) this h =
     ((case fst (fragment_method k v (h ! this)) of Inl e \<Rightarrow> Inl e | Inr u \<Rightarrow> Inr this),
      h[this := snd (fragment_method k v (h ! this))])"
  by (cases "fragment_method k v (h ! this)") (auto simp: invoke.simps split: sum.splits)

lemma length_invoke: "length (snd (invoke c r h)) = length h"
  by (cases c) (auto simp: invoke.simps split: prod.splits sum.splits)

lemma invoke_frame: "r' \<noteq> r \<Longrightarrow> snd (invoke c r h) ! r' = h ! r'"
  by (cases c) (auto simp: invoke.simps split: prod.splits sum.splits)

lemma invoke_returns_this: "fst (invoke c r h) = Inr r' \<Longrightarrow> r' = r \<and> r < length h"
  by (cases c) (auto simp: invoke.simps split: prod.splits sum.splits if_splits)

lemma length_facade: "length (snd (cssSelectorBuilder c h)) = Suc (length h)"
  by (simp add: cssSelectorBuilder_def length_invoke)

lemma facade_frame: "r < length h \<Longrightarrow> snd (cssSelectorBuilder c h) ! r = h ! r"
  by (simp add: cssSelectorBuilder_def invoke_frame nth_append)

lemma facade_fresh: "fst (cssSelectorBuilder c h) = Inr r \<Longrightarrow> r = length h"
  by (auto simp: cssSelectorBuilder_def dest: invoke_returns_this split: if_splits)

lemma length_exec: "length h \<le> length (snd (exec s h))"
  by (cases s) (simp_all add: length_facade length_invoke)

lemma length_run: "length h \<le> length (run ss h)"
proof (induction ss arbitrary: h)
  case Nil
  show ?case by simp
next
  case (Cons s ss)
  have "length h \<le> length (snd (exec s h))" by (rule length_exec)
  also have "\<dots> \<le> length (run ss (snd (exec s h)))" by (rule Cons.IH)
  finally show ?case by simp
qed

lemma exec_frame:
  "r < length h \<Longrightarrow> receiver s \<noteq> Some r \<Longrightarrow> snd (exec s h) ! r = h ! r"
  by (cases s) (simp_all add: facade_frame invoke_frame)

lemma run_frame:
  "r < length h \<Longrightarrow> \<forall>s\<in>set ss. receiver s \<noteq> Some r \<Longrightarrow> run ss h ! r = h ! r"
proof (induction ss arbitrary: h)
  case Nil
  show ?case by simp
next
  case (Cons s ss)
  have "r < length (snd (exec s h))"
    using Cons.prems(1) length_exec [of h s] by simp
  then have "run ss (snd (exec s h)) ! r = snd (exec s h) ! r"
    using Cons.prems(2) by (intro Cons.IH) simp_all
  then show ?case
    using Cons.prems by (simp add: exec_frame)
qed

lemma selectors_combine: "selectors (combine item1 t item2 this) = selectors this"
  by (simp add: combine_def)

lemma exec_selectors:
  assumes "r < length h"
  shows "selectors (snd (exec s h) ! r) = selectors (h ! r) \<or>
         (\<exists>k v. selectors (snd (exec s h) ! r) = selectors (snd (fragment_method k v (h ! r))))"
proof (cases "receiver s = Some r")
  case False
  then show ?thesis using assms by (simp add: exec_frame)
next
  case True
  then obtain c where s: "s = Method r c" by (cases s) auto
  show ?thesis
  proof (cases c)
    case (Fragment k v)
    then show ?thesis
      using assms s by (auto simp: invoke_Fragment)
  next
    case (Combine item1 t item2)
    then show ?thesis
      using assms s by (simp add: invoke.simps selectors_combine)
  qed
qed

lemma exec_hasOwnProperty:
  assumes "r < length h" "hasOwnProperty (selectors (h ! r)) k"
  shows "hasOwnProperty (selectors (snd (exec s h) ! r)) k"
  using exec_selectors [OF assms(1), of s] assms(2) hasOwnProperty_kept by metis

lemma run_hasOwnProperty:
  assumes "r < length h" "hasOwnProperty (selectors (h ! r)) k"
  shows "hasOwnProperty (selectors (run ss h ! r)) k"
  using assms
proof (induction ss arbitrary: h)
  case Nil
  then show ?case by simp
next
  case (Cons s ss)
  have "r < length (snd (exec s h))"
    using Cons.prems(1) length_exec [of h s] by simp
  moreover have "hasOwnProperty (selectors (snd (exec s h) ! r)) k"
    using Cons.prems by (rule exec_hasOwnProperty)
  ultimately show ?case
    using Cons.IH by simp
qed

lemma exec_singular_entry:
  assumes "r < length h" "singular k" "map_of (selectors (h ! r)) k = Some e"
  shows "map_of (selectors (snd (exec s h) ! r)) k = Some e"
  using exec_selectors [OF assms(1), of s] assms(2,3) singular_entry_kept by metis

lemma run_singular_entry:
  assumes "r < length h" "singular k" "map_of (selectors (h ! r)) k = Some e"
  shows "map_of (selectors (run ss h ! r)) k = Some e"
  using assms
proof (induction ss arbitrary: h)
  case Nil
  then show ?case by simp
next
  case (Cons s ss)
  have "r < length (snd (exec s h))"
    using Cons.prems(1) length_exec [of h s] by simp
  moreover have "map_of (selectors (snd (exec s h) ! r)) k = Some e"
    using Cons.prems by (rule exec_singular_entry)
  ultimately show ?case
    using Cons.IH Cons.prems(2) by simp
qed

lemma singular_twice:
  assumes r: "r < length h" and k: "singular k"
  shows "fst (invoke (Fragment k v') r (run ss (snd (invoke (Fragment k v) r h)))) = Inl RepeatError"
proof -
  define h1 where "h1 = snd (invoke (Fragment k v) r h)"
  define h2 where "h2 = run ss h1"
  have r1: "r < length h1"
    using r by (simp add: h1_def length_invoke)
  have "h1 ! r = snd (fragment_method k v (h ! r))"
    using r by (simp add: h1_def invoke_Fragment)
  then have "hasOwnProperty (selectors (h1 ! r)) k"
    using k by (simp add: hasOwnProperty_singular_called)
  then have has: "hasOwnProperty (selectors (h2 ! r)) k"
    unfolding h2_def using r1 by (intro run_hasOwnProperty)
  have r2: "r < length h2"
    using r1 length_run [of h1 ss] by (simp add: h2_def)
  have "fragment_method k v' (h2 ! r) = (Inl RepeatError, h2 ! r)"
    using k has by (rule fragment_method_repeat)
  then show ?thesis
    using r2 by (simp add: invoke_Fragment h1_def h2_def)
qed

lemma singular_stored:
  assumes r: "r < length h" and k: "singular k"
    and first: "\<not> hasOwnProperty (selectors (h ! r)) k"
  shows "map_of (selectors (run ss (snd (invoke (Fragment k v) r h)) ! r)) k =
         Some (Str (rendered (k, v)))"
proof -
  define h1 where "h1 = snd (invoke (Fragment k v) r h)"
  have r1: "r < length h1"
    using r by (simp add: h1_def length_invoke)
  have "h1 ! r = snd (fragment_method k v (h ! r))"
    using r by (simp add: h1_def invoke_Fragment)
  then have "map_of (selectors (h1 ! r)) k = Some (Str (rendered (k, v)))"
    using k first by (simp add: singular_entry_first)
  then show ?thesis
    unfolding h1_def [symmetric] using r1 k by (intro run_singular_entry)
qed

text \<open>
  Claim C3. For every builder \<open>r\<close>: after a call of \<open>element\<close> on it, whatever that call
  and the statements \<open>ss\<close> executed since did, another call of \<open>element\<close> on it raises
  \<open>RepeatError\<close> (the duplicate error); the same holds for \<open>id\<close> and for \<open>pseudoElement\<close>.
  The first fragment of such a kind is stored as the tag text itself, as \<open>#\<close> followed by
  the argument, and as \<open>::\<close> followed by the argument, and stays so.
\<close>

theorem singular_kinds_once:
  assumes "r < length h"
  shows
   "fst (invoke (Fragment K_element v') r (run ss (snd (invoke (Fragment K_element v) r h)))) =
      Inl RepeatError \<and>
    fst (invoke (Fragment K_id v') r (run ss (snd (invoke (Fragment K_id v) r h)))) =
      Inl RepeatError \<and>
    fst (invoke (Fragment K_pseudoElement v') r
          (run ss (snd (invoke (Fragment K_pseudoElement v) r h)))) =
      Inl RepeatError \<and>
    (\<not> hasOwnProperty (selectors (h ! r)) K_element \<longrightarrow>
       map_of (selectors (run ss (snd (invoke (Fragment K_element v) r h)) ! r)) K_element =
         Some (Str v)) \<and>
    (\<not> hasOwnProperty (selectors (h ! r)) K_id \<longrightarrow>
       map_of (selectors (run ss (snd (invoke (Fragment K_id v) r h)) ! r)) K_id =
         Some (Str (''#'' @ v))) \<and>
    (\<not> hasOwnProperty (selectors (h ! r)) K_pseudoElement \<longrightarrow>
       map_of (selectors (run ss (snd (invoke (Fragment K_pseudoElement v) r h)) ! r))
         K_pseudoElement = Some (Str (''::'' @ v)))"
proof -
  have s: "singular K_element" "singular K_id" "singular K_pseudoElement"
    by (simp_all add: singular_def)
  show ?thesis
    using singular_twice [OF assms s(1)] singular_twice [OF assms s(2)]
      singular_twice [OF assms s(3)]
      singular_stored [OF assms s(1)] singular_stored [OF assms s(2)]
      singular_stored [OF assms s(3)]
    by simp
qed

text \<open>A new builder, \<open>element('div')\<close>, then \<open>class('c')\<close>, then \<open>element('p')\<close>.\<close>

theorem singular_kinds_once_witness:
  "(0::nat) < length [new_CssBuilder] \<and>
   \<not> hasOwnProperty (selectors ([new_CssBuilder] ! 0)) K_element \<and>
   \<not> hasOwnProperty (selectors ([new_CssBuilder] ! 0)) K_id \<and>
   \<not> hasOwnProperty (selectors ([new_CssBuilder] ! 0)) K_pseudoElement \<and>
   fst (invoke (Fragment K_element ''p'') 0
         (run [Method 0 (Fragment K_class ''c'')]
           (snd (invoke (Fragment K_element ''div'') 0 [new_CssBuilder])))) = Inl RepeatError \<and>
   map_of (selectors (run [Method 0 (Fragment K_class ''c'')]
           (snd (invoke (Fragment K_element ''div'') 0 [new_CssBuilder])) ! 0)) K_element =
     Some (Str ''div'') \<and>
   map_of (selectors (run [Method 0 (Fragment K_class ''c'')]
           (snd (invoke (Fragment K_id ''div'') 0 [new_CssBuilder])) ! 0)) K_id =
     Some (Str ''#div'') \<and>
   map_of (selectors (run [Method 0 (Fragment K_class ''c'')]
           (snd (invoke (Fragment K_pseudoElement ''div'') 0 [new_CssBuilder])) ! 0))
     K_pseudoElement = Some (Str ''::div'')"
proof -
  have h: "(0::nat) < length [new_CssBuilder]"
    by simp
  have n: "\<not> hasOwnProperty (selectors ([new_CssBuilder] ! 0)) K_element"
    "\<not> hasOwnProperty (selectors ([new_CssBuilder] ! 0)) K_id"
    "\<not> hasOwnProperty (selectors ([new_CssBuilder] ! 0)) K_pseudoElement"
    by (simp_all add: new_CssBuilder_def hasOwnProperty_def)
  show ?thesis
    using h n
      singular_kinds_once [OF h, of "''p''" "[Method 0 (Fragment K_class ''c'')]" "''div''"]
    by simp
qed

text \<open>
  Claim C4. For any two selector expressions \<open>item1\<close> and \<open>item2\<close> and any combinator
  token \<open>t\<close>, \<open>combine(item1, t, item2)\<close> of the facade returns a new builder whose
  \<open>stringify()\<close> is that of \<open>item1\<close>, a space, \<open>t\<close>, a space, and that of \<open>item2\<close>; the
  operands render as before. With the token \<open>' '\<close> three spaces separate the operands.
  The operands may themselves be results of \<open>combine\<close>.
\<close>

theorem combine_stringify:
  assumes "item1 < length h" "item2 < length h"
  shows
   "fst (cssSelectorBuilder (Combine item1 t item2) h) = Inr (length h) \<and>
    stringify_at (length h) (snd (cssSelectorBuilder (Combine item1 t item2) h)) =
      Inr (stringify (h ! item1) @ '' '' @ t @ '' '' @ stringify (h ! item2)) \<and>
    stringify_at item1 (snd (cssSelectorBuilder (Combine item1 t item2) h)) =
      Inr (stringify (h ! item1)) \<and>
    stringify_at item2 (snd (cssSelectorBuilder (Combine item1 t item2) h)) =
      Inr (stringify (h ! item2)) \<and>
    stringify_at (length h) (snd (cssSelectorBuilder (Combine item1 '' '' item2) h)) =
      Inr (stringify (h ! item1) @ ''   '' @ stringify (h ! item2))"
  using assms
  by (simp add: cssSelectorBuilder_def invoke.simps stringify_at_def nth_append combine_def
      new_CssBuilder_def stringify_def join_def)

text \<open>The nested example of the source, built statement by statement.\<close>

theorem combine_stringify_witness:
  "(0::nat) < length (run [Facade (Fragment K_element ''div''), Method 0 (Fragment K_id ''main''),
       Method 0 (Fragment K_class ''container''), Method 0 (Fragment K_class ''draggable''),
       Facade (Fragment K_element ''table''), Method 1 (Fragment K_id ''data''),
       Facade (Fragment K_element ''tr''), Method 2 (Fragment K_pseudoClass ''nth-of-type(even)''),
       Facade (Fragment K_element ''td''), Method 3 (Fragment K_pseudoClass ''nth-of-type(even)''),
       Facade (Combine 2 '' '' 3), Facade (Combine 1 ''~'' 4)] []) \<and>
   (5::nat) < length (run [Facade (Fragment K_element ''div''), Method 0 (Fragment K_id ''main''),
       Method 0 (Fragment K_class ''container''), Method 0 (Fragment K_class ''draggable''),
       Facade (Fragment K_element ''table''), Method 1 (Fragment K_id ''data''),
       Facade (Fragment K_element ''tr''), Method 2 (Fragment K_pseudoClass ''nth-of-type(even)''),
       Facade (Fragment K_element ''td''), Method 3 (Fragment K_pseudoClass ''nth-of-type(even)''),
       Facade (Combine 2 '' '' 3), Facade (Combine 1 ''~'' 4)] []) \<and>
   stringify_at 6 (run [Facade (Fragment K_element ''div''), Method 0 (Fragment K_id ''main''),
       Method 0 (Fragment K_class ''container''), Method 0 (Fragment K_class ''draggable''),
       Facade (Fragment K_element ''table''), Method 1 (Fragment K_id ''data''),
       Facade (Fragment K_element ''tr''), Method 2 (Fragment K_pseudoClass ''nth-of-type(even)''),
       Facade (Fragment K_element ''td''), Method 3 (Fragment K_pseudoClass ''nth-of-type(even)''),
       Facade (Combine 2 '' '' 3), Facade (Combine 1 ''~'' 4), Facade (Combine 0 ''+'' 5)] []) =
     Inr ''div#main.container.draggable + table#data ~ tr:nth-of-type(even)   td:nth-of-type(even)''"
proof -
  define h where "h = run [Facade (Fragment K_element ''div''), Method 0 (Fragment K_id ''main''),
       Method 0 (Fragment K_class ''container''), Method 0 (Fragment K_class ''draggable''),
       Facade (Fragment K_element ''table''), Method 1 (Fragment K_id ''data''),
       Facade (Fragment K_element ''tr''), Method 2 (Fragment K_pseudoClass ''nth-of-type(even)''),
       Facade (Fragment K_element ''td''), Method 3 (Fragment K_pseudoClass ''nth-of-type(even)''),
       Facade (Combine 2 '' '' 3), Facade (Combine 1 ''~'' 4)] []"
  have h: "h =
    [\<lparr>selectors = [(K_element, Str ''div''), (K_id, Str ''#main''),
         (K_class, Arr [''.container'', ''.draggable''])], complex = []\<rparr>,
     \<lparr>selectors = [(K_element, Str ''table''), (K_id, Str ''#data'')], complex = []\<rparr>,
     \<lparr>selectors = [(K_element, Str ''tr''), (K_pseudoClass, Arr ['':nth-of-type(even)''])],
        complex = []\<rparr>,
     \<lparr>selectors = [(K_element, Str ''td''), (K_pseudoClass, Arr ['':nth-of-type(even)''])],
        complex = []\<rparr>,
     \<lparr>selectors = [], complex = [''tr:nth-of-type(even)   td:nth-of-type(even)'']\<rparr>,
     \<lparr>selectors = [],
        complex = [''table#data ~ tr:nth-of-type(even)   td:nth-of-type(even)'']\<rparr>]"
    unfolding h_def by code_simp
  have len: "0 < length h" "5 < length h"
    by (simp_all add: h)
  have s0: "stringify (h ! 0) = ''div#main.container.draggable''"
    and s5: "stringify (h ! 5) = ''table#data ~ tr:nth-of-type(even)   td:nth-of-type(even)''"
    and l6: "length h = 6"
    by (simp_all add: h stringify_def join_def Object_values_def)
  have "stringify_at (length h) (snd (cssSelectorBuilder (Combine 0 ''+'' 5) h)) =
      Inr (stringify (h ! 0) @ '' '' @ ''+'' @ '' '' @ stringify (h ! 5))"
    using combine_stringify [OF len, of "''+''"] by blast
  then have "stringify_at 6 (snd (cssSelectorBuilder (Combine 0 ''+'' 5) h)) =
     Inr ''div#main.container.draggable + table#data ~ tr:nth-of-type(even)   td:nth-of-type(even)''"
    unfolding s0 s5 l6 by simp
  moreover have "run [Facade (Fragment K_element ''div''), Method 0 (Fragment K_id ''main''),
       Method 0 (Fragment K_class ''container''), Method 0 (Fragment K_class ''draggable''),
       Facade (Fragment K_element ''table''), Method 1 (Fragment K_id ''data''),
       Facade (Fragment K_element ''tr''), Method 2 (Fragment K_pseudoClass ''nth-of-type(even)''),
       Facade (Fragment K_element ''td''), Method 3 (Fragment K_pseudoClass ''nth-of-type(even)''),
       Facade (Combine 2 '' '' 3), Facade (Combine 1 ''~'' 4), Facade (Combine 0 ''+'' 5)] [] =
     snd (cssSelectorBuilder (Combine 0 ''+'' 5) h)"
    unfolding h_def by code_simp
  ultimately show ?thesis
    using len unfolding h_def by simp
qed

text \<open>
  Claim C5 says that a combined selector is rendered when \<open>stringify()\<close> is called, from
  the state its operands have then. Here \<open>c = combine(a, '+', b)\<close> with \<open>a = element('div')\<close>
  and \<open>b = element('p')\<close>, and then \<open>a.class('x')\<close>: no call raises, \<open>a\<close> renders as
  \<open>div.x\<close>, and \<open>c\<close> still renders as \<open>div + p\<close>.
\<close>

theorem combine_on_demand_counterexample:
  "run_returning [Facade (Fragment K_element ''div''), Facade (Fragment K_element ''p''),
       Facade (Combine 0 ''+'' 1), Method 0 (Fragment K_class ''x'')] [] =
     Some ([0, 1, 2, 0],
       run [Facade (Fragment K_element ''div''), Facade (Fragment K_element ''p''),
         Facade (Combine 0 ''+'' 1), Method 0 (Fragment K_class ''x'')] []) \<and>
   stringify_at 0 (run [Facade (Fragment K_element ''div''), Facade (Fragment K_element ''p''),
       Facade (Combine 0 ''+'' 1), Method 0 (Fragment K_class ''x'')] []) = Inr ''div.x'' \<and>
   stringify_at 1 (run [Facade (Fragment K_element ''div''), Facade (Fragment K_element ''p''),
       Facade (Combine 0 ''+'' 1), Method 0 (Fragment K_class ''x'')] []) = Inr ''p'' \<and>
   stringify_at 2 (run [Facade (Fragment K_element ''div''), Facade (Fragment K_element ''p''),
       Facade (Combine 0 ''+'' 1), Method 0 (Fragment K_class ''x'')] []) = Inr ''div + p''"
  by code_simp

subsection \<open>Combined selectors\<close>

lemma complex_exec:
  assumes "r < length h" "\<not> combines_on r s"
  shows "complex (snd (exec s h) ! r) = complex (h ! r)"
proof (cases "receiver s = Some r")
  case False
  then show ?thesis using assms(1) by (simp add: exec_frame)
next
  case True
  then obtain c where s: "s = Method r c" by (cases s) auto
  then obtain k v where "c = Fragment k v"
    using assms(2) by (cases c) auto
  then show ?thesis
    using assms(1) s by (simp add: invoke_Fragment complex_fragment_method)
qed

lemma complex_run:
  assumes "r < length h" "\<forall>s\<in>set ss. \<not> combines_on r s"
  shows "complex (run ss h ! r) = complex (h ! r)"
  using assms
proof (induction ss arbitrary: h)
  case Nil
  show ?case by simp
next
  case (Cons s ss)
  have "r < length (snd (exec s h))"
    using Cons.prems(1) length_exec [of h s] by simp
  then have "complex (run ss (snd (exec s h)) ! r) = complex (snd (exec s h) ! r)"
    using Cons.prems(2) by (intro Cons.IH) simp_all
  then show ?case
    using Cons.prems by (simp add: complex_exec)
qed

lemma stringify_complex: "complex this \<noteq> [] \<Longrightarrow> stringify this = concat (complex this)"
  by (simp add: stringify_def join_def)

lemma facade_Combine:
  assumes "item1 < length h" "item2 < length h"
  shows "cssSelectorBuilder (Combine item1 t item2) h =
    (Inr (length h),
     h @ [\<lparr>selectors = [],
            complex = [stringify (h ! item1) @ '' '' @ t @ '' '' @ stringify (h ! item2)]\<rparr>])"
  using assms
  by (simp add: cssSelectorBuilder_def invoke.simps nth_append combine_def new_CssBuilder_def)

text \<open>
  Claim C5, as the code has it. \<open>combine\<close> renders both operands when it is called and
  stores the text: for \<open>c = combine(item1, t, item2)\<close> of the facade, \<open>c.stringify()\<close>
  returns the text made of the operands' renderings at the time of the \<open>combine\<close> call,
  whatever statements \<open>ss\<close> run afterwards on the operands or on other builders, as long
  as none of them calls \<open>combine\<close> on \<open>c\<close> again.
\<close>

theorem combine_rendered_at_call:
  assumes "item1 < length h" "item2 < length h"
    and "\<forall>s\<in>set ss. \<not> combines_on (length h) s"
  shows "stringify_at (length h) (run ss (snd (cssSelectorBuilder (Combine item1 t item2) h))) =
         Inr (stringify (h ! item1) @ '' '' @ t @ '' '' @ stringify (h ! item2))"
proof -
  define h1 where "h1 = snd (cssSelectorBuilder (Combine item1 t item2) h)"
  have h1: "h1 = h @ [\<lparr>selectors = [],
      complex = [stringify (h ! item1) @ '' '' @ t @ '' '' @ stringify (h ! item2)]\<rparr>]"
    using assms(1,2) by (simp add: h1_def facade_Combine)
  have len: "length h < length h1"
    by (simp add: h1)
  then have "complex (run ss h1 ! length h) = complex (h1 ! length h)"
    using assms(3) by (rule complex_run)
  then have "complex (run ss h1 ! length h) =
      [stringify (h ! item1) @ '' '' @ t @ '' '' @ stringify (h ! item2)]"
    by (simp add: h1)
  then have "stringify (run ss h1 ! length h) =
      stringify (h ! item1) @ '' '' @ t @ '' '' @ stringify (h ! item2)"
    by (simp add: stringify_complex)
  moreover have "length h < length (run ss h1)"
    using len length_run [of h1 ss] by simp
  ultimately show ?thesis
    by (simp add: stringify_at_def h1_def)
qed

text \<open>The program of the counterexample.\<close>

theorem combine_rendered_at_call_witness:
  "(0::nat) < length (run [Facade (Fragment K_element ''div''), Facade (Fragment K_element ''p'')] []) \<and>
   (1::nat) < length (run [Facade (Fragment K_element ''div''), Facade (Fragment K_element ''p'')] []) \<and>
   \<not> combines_on
       (length (run [Facade (Fragment K_element ''div''), Facade (Fragment K_element ''p'')] []))
       (Method 0 (Fragment K_class ''x'')) \<and>
   stringify_at 2
     (run [Method 0 (Fragment K_class ''x'')]
        (snd (cssSelectorBuilder (Combine 0 ''+'' 1)
           (run [Facade (Fragment K_element ''div''), Facade (Fragment K_element ''p'')] [])))) =
     Inr ''div + p''"
proof -
  define h where "h = run [Facade (Fragment K_element ''div''), Facade (Fragment K_element ''p'')] []"
  have h: "h = [\<lparr>selectors = [(K_element, Str ''div'')], complex = []\<rparr>,
                \<lparr>selectors = [(K_element, Str ''p'')], complex = []\<rparr>]"
    unfolding h_def by code_simp
  have len: "0 < length h" "1 < length h"
    by (simp_all add: h)
  have no: "\<forall>s\<in>set [Method 0 (Fragment K_class ''x'')]. \<not> combines_on (length h) s"
    by simp
  have s0: "stringify (h ! 0) = ''div''" and s1: "stringify (h ! 1) = ''p''" and l2: "length h = 2"
    by (simp_all add: h stringify_def join_def Object_values_def)
  have "stringify_at (length h)
     (run [Method 0 (Fragment K_class ''x'')] (snd (cssSelectorBuilder (Combine 0 ''+'' 1) h))) =
     Inr (stringify (h ! 0) @ '' '' @ ''+'' @ '' '' @ stringify (h ! 1))"
    using len no by (rule combine_rendered_at_call)
  then have "stringify_at 2
     (run [Method 0 (Fragment K_class ''x'')] (snd (cssSelectorBuilder (Combine 0 ''+'' 1) h))) =
     Inr ''div + p''"
    unfolding s0 s1 l2 by simp
  moreover have "\<not> combines_on (length h) (Method 0 (Fragment K_class ''x''))"
    by simp
  ultimately show ?thesis
    using len unfolding h_def by blast
qed

text \<open>
  Claim C6 says that \<open>b.combine(A, t, B).stringify()\<close> is, for every builder \<open>b\<close>, the
  result of \<open>combine\<close> on a new builder with the same operands. Here \<open>b\<close> is itself the
  result of \<open>combine(x, '+', y)\<close>: \<open>b.combine(a, '>', b')\<close> renders as \<open>x + ya > b\<close>, the
  same call on the facade as \<open>a > b\<close>.
\<close>

theorem combine_on_combined_counterexample:
  "run_returning [Facade (Fragment K_element ''a''), Facade (Fragment K_element ''b''),
       Facade (Fragment K_element ''x''), Facade (Fragment K_element ''y''),
       Facade (Combine 2 ''+'' 3), Method 4 (Combine 0 ''>'' 1), Facade (Combine 0 ''>'' 1)] [] =
     Some ([0, 1, 2, 3, 4, 4, 5],
       run [Facade (Fragment K_element ''a''), Facade (Fragment K_element ''b''),
         Facade (Fragment K_element ''x''), Facade (Fragment K_element ''y''),
         Facade (Combine 2 ''+'' 3), Method 4 (Combine 0 ''>'' 1), Facade (Combine 0 ''>'' 1)] []) \<and>
   stringify_at 4 (run [Facade (Fragment K_element ''a''), Facade (Fragment K_element ''b''),
       Facade (Fragment K_element ''x''), Facade (Fragment K_element ''y''),
       Facade (Combine 2 ''+'' 3), Method 4 (Combine 0 ''>'' 1), Facade (Combine 0 ''>'' 1)] []) =
     Inr ''x + ya > b'' \<and>
   stringify_at 5 (run [Facade (Fragment K_element ''a''), Facade (Fragment K_element ''b''),
       Facade (Fragment K_element ''x''), Facade (Fragment K_element ''y''),
       Facade (Combine 2 ''+'' 3), Method 4 (Combine 0 ''>'' 1), Facade (Combine 0 ''>'' 1)] []) =
     Inr ''a > b''"
  by code_simp

text \<open>
  Claim C6, as the code has it. For every builder \<open>r\<close> on which \<open>combine\<close> has not
  been called before (its \<open>complex\<close> is empty), whatever fragments it holds,
  \<open>r.combine(item1, t, item2)\<close> returns \<open>r\<close>, and its \<open>stringify()\<close> depends on the
  operands and the token only: it equals that of \<open>combine\<close> of the facade with the same
  arguments. An operand may be the receiver itself.
\<close>

theorem combine_ignores_fragments:
  assumes "r < length h" "item1 < length h" "item2 < length h"
    and "complex (h ! r) = []"
  shows "fst (invoke (Combine item1 t item2) r h) = Inr r \<and>
         stringify_at r (snd (invoke (Combine item1 t item2) r h)) =
           Inr (stringify (h ! item1) @ '' '' @ t @ '' '' @ stringify (h ! item2)) \<and>
         stringify_at r (snd (invoke (Combine item1 t item2) r h)) =
           stringify_at (length h) (snd (cssSelectorBuilder (Combine item1 t item2) h))"
  using assms
  by (simp add: facade_Combine invoke.simps stringify_at_def combine_def stringify_def join_def)

text \<open>The receiver \<open>div.c\<close> combined with itself.\<close>

theorem combine_ignores_fragments_witness:
  "(0::nat) < length [snd (class_m ''c'' (snd (element ''div'' new_CssBuilder)))] \<and>
   complex ([snd (class_m ''c'' (snd (element ''div'' new_CssBuilder)))] ! 0) = [] \<and>
   stringify_at 0 [snd (class_m ''c'' (snd (element ''div'' new_CssBuilder)))] = Inr ''div.c'' \<and>
   stringify_at 0 (snd (invoke (Combine 0 ''>'' 0) 0
       [snd (class_m ''c'' (snd (element ''div'' new_CssBuilder)))])) = Inr ''div.c > div.c'' \<and>
   stringify_at 1 (snd (cssSelectorBuilder (Combine 0 ''>'' 0)
       [snd (class_m ''c'' (snd (element ''div'' new_CssBuilder)))])) = Inr ''div.c > div.c''"
proof -
  define b where "b = snd (class_m ''c'' (snd (element ''div'' new_CssBuilder)))"
  have b: "b = \<lparr>selectors = [(K_element, Str ''div''), (K_class, Arr [''.c''])], complex = []\<rparr>"
    unfolding b_def by code_simp
  have len: "0 < length [b]" by simp
  have cx: "complex ([b] ! 0) = []" by (simp add: b)
  have s: "stringify ([b] ! 0) = ''div.c''" and l: "length [b] = 1"
    by (simp_all add: b stringify_def join_def Object_values_def)
  note t = combine_ignores_fragments [OF len len len cx, of "''>''"]
  have a1: "stringify_at 0 (snd (invoke (Combine 0 ''>'' 0) 0 [b])) = Inr ''div.c > div.c''"
    using t unfolding s by simp
  have a2: "stringify_at 1 (snd (cssSelectorBuilder (Combine 0 ''>'' 0) [b])) =
      stringify_at 0 (snd (invoke (Combine 0 ''>'' 0) 0 [b]))"
  proof -
    from t have "stringify_at 0 (snd (invoke (Combine 0 ''>'' 0) 0 [b])) =
        stringify_at (length [b]) (snd (cssSelectorBuilder (Combine 0 ''>'' 0) [b]))"
      by blast
    then show ?thesis by simp
  qed
  have a3: "stringify_at 1 (snd (cssSelectorBuilder (Combine 0 ''>'' 0) [b])) =
      Inr ''div.c > div.c''"
    unfolding a2 by (rule a1)
  have a4: "stringify_at 0 [b] = Inr ''div.c''"
    using s by (simp add: stringify_at_def)
  show ?thesis
    using len cx a4 a1 a3 unfolding b_def by blast
qed



subsection \<open>Totality of rendering\<close>







text \<open>
  The same body does raise on an array that holds a symbol, at the top or inside an
  array that \<open>flat\<close> leaves nested.
\<close>

lemma stringify_js_symbol: "stringify_js [] [(K_element, V_symbol)] = Inl TypeError"
  by (simp add: stringify_js_def join_js_def)

lemma stringify_js_nested_symbol:
  "stringify_js [V_array [V_string ''a'', V_array [V_symbol]]] [] = Inl TypeError"
  by (simp add: stringify_js_def join_js_def)



lemma invoke_sim:
  assumes "r1 < length h1" "r2 < length h2" "h1 ! r1 = h2 ! r2"
    and "\<forall>i\<in>set (operands c). i < length h1 \<and> i < length h2 \<and>
           stringify (h1 ! i) = stringify (h2 ! i)"
  shows "outcome (fst (invoke c r1 h1)) = outcome (fst (invoke c r2 h2)) \<and>
         snd (invoke c r1 h1) ! r1 = snd (invoke c r2 h2) ! r2"
proof (cases c)
  case (Fragment k v)
  then show ?thesis
    using assms(1-3) by (simp add: invoke_Fragment outcome_def split: sum.splits)
next
  case (Combine item1 t item2)
  then show ?thesis
    using assms by (simp add: invoke.simps outcome_def combine_def)
qed

lemma chained_sim:
  assumes "r1 < length h1" "r2 < length h2" "h1 ! r1 = h2 ! r2"
    and "\<forall>i\<in>set (concat (map operands cs)). i < length h1 \<and> i < length h2 \<and> i \<noteq> r1 \<and> i \<noteq> r2 \<and>
           stringify (h1 ! i) = stringify (h2 ! i)"
  shows "outcome (fst (chained cs r1 h1)) = outcome (fst (chained cs r2 h2)) \<and>
         snd (chained cs r1 h1) ! r1 = snd (chained cs r2 h2) ! r2 \<and>
         length (snd (chained cs r1 h1)) = length h1 \<and>
         length (snd (chained cs r2 h2)) = length h2"
  using assms
proof (induction cs arbitrary: h1 h2)
  case Nil
  then show ?case by (simp add: outcome_def)
next
  case (Cons c cs)
  obtain res1 g1 where i1: "invoke c r1 h1 = (res1, g1)" by (cases "invoke c r1 h1")
  obtain res2 g2 where i2: "invoke c r2 h2 = (res2, g2)" by (cases "invoke c r2 h2")
  have ops: "\<forall>i\<in>set (operands c). i < length h1 \<and> i < length h2 \<and>
           stringify (h1 ! i) = stringify (h2 ! i)"
    using Cons.prems(4) by simp
  from invoke_sim [OF Cons.prems(1-3) ops] i1 i2
  have out: "outcome res1 = outcome res2" and st: "g1 ! r1 = g2 ! r2"
    by simp_all
  have len: "length g1 = length h1" "length g2 = length h2"
    using length_invoke [of c r1 h1] length_invoke [of c r2 h2] i1 i2 by simp_all
  show ?case
  proof (cases res1)
    case (Inl e)
    then have "res2 = Inl e"
      using out by (cases res2) (simp_all add: outcome_def)
    then show ?thesis
      using Inl i1 i2 st len by (simp add: outcome_def)
  next
    case (Inr r)
    then obtain r' where r': "res2 = Inr r'"
      using out by (cases res2) (simp_all add: outcome_def)
    have r: "r = r1"
      using invoke_returns_this [of c r1 h1 r] i1 Inr by simp
    have r'2: "r' = r2"
      using invoke_returns_this [of c r2 h2 r'] i2 r' by simp
    have frame1: "g1 ! i = h1 ! i" if "i \<noteq> r1" for i
      using invoke_frame [of i r1 c h1] that i1 by simp
    have frame2: "g2 ! i = h2 ! i" if "i \<noteq> r2" for i
      using invoke_frame [of i r2 c h2] that i2 by simp
    have "\<forall>i\<in>set (concat (map operands cs)). i < length g1 \<and> i < length g2 \<and> i \<noteq> r1 \<and> i \<noteq> r2 \<and>
           stringify (g1 ! i) = stringify (g2 ! i)"
      using Cons.prems(4) len frame1 frame2 by simp
    moreover have "r1 < length g1" "r2 < length g2"
      using Cons.prems(1,2) len by simp_all
    ultimately have "outcome (fst (chained cs r1 g1)) = outcome (fst (chained cs r2 g2)) \<and>
         snd (chained cs r1 g1) ! r1 = snd (chained cs r2 g2) ! r2 \<and>
         length (snd (chained cs r1 g1)) = length g1 \<and>
         length (snd (chained cs r2 g2)) = length g2"
      using st by (intro Cons.IH)
    then show ?thesis
      using Inr r' r r'2 i1 i2 len by simp
  qed
qed

lemma fluent_chained:
  assumes "\<forall>i\<in>set (operands c). i < length h"
  shows "fluent c cs h = chained (c # cs) (length h) (h @ [new_CssBuilder])"
  using assms by (simp add: fluent_def cssSelectorBuilder_def list_all_iff)

lemma fluent_sim:
  assumes "\<forall>i\<in>set (concat (map operands (c # cs))). i < length h \<and> i < length g \<and>
           stringify (h ! i) = stringify (g ! i)"
  shows "outcome (fst (fluent c cs h)) = outcome (fst (fluent c cs g)) \<and>
         stringify_at (length h) (snd (fluent c cs h)) =
           stringify_at (length g) (snd (fluent c cs g))"
proof -
  have ops: "\<forall>i\<in>set (operands c). i < length h" "\<forall>i\<in>set (operands c). i < length g"
    using assms by simp_all
  have "\<forall>i\<in>set (concat (map operands (c # cs))).
      i < length (h @ [new_CssBuilder]) \<and> i < length (g @ [new_CssBuilder]) \<and>
      i \<noteq> length h \<and> i \<noteq> length g \<and>
      stringify ((h @ [new_CssBuilder]) ! i) = stringify ((g @ [new_CssBuilder]) ! i)"
  proof
    fix i assume "i \<in> set (concat (map operands (c # cs)))"
    with assms have "i < length h \<and> i < length g \<and> stringify (h ! i) = stringify (g ! i)"
      by blast
    then show "i < length (h @ [new_CssBuilder]) \<and> i < length (g @ [new_CssBuilder]) \<and>
      i \<noteq> length h \<and> i \<noteq> length g \<and>
      stringify ((h @ [new_CssBuilder]) ! i) = stringify ((g @ [new_CssBuilder]) ! i)"
      by (simp add: nth_append)
  qed
  moreover have "length h < length (h @ [new_CssBuilder])" "length g < length (g @ [new_CssBuilder])"
    "(h @ [new_CssBuilder]) ! length h = (g @ [new_CssBuilder]) ! length g"
    by simp_all
  ultimately have
    "outcome (fst (chained (c # cs) (length h) (h @ [new_CssBuilder]))) =
       outcome (fst (chained (c # cs) (length g) (g @ [new_CssBuilder]))) \<and>
     snd (chained (c # cs) (length h) (h @ [new_CssBuilder])) ! length h =
       snd (chained (c # cs) (length g) (g @ [new_CssBuilder])) ! length g \<and>
     length (snd (chained (c # cs) (length h) (h @ [new_CssBuilder]))) = length (h @ [new_CssBuilder]) \<and>
     length (snd (chained (c # cs) (length g) (g @ [new_CssBuilder]))) = length (g @ [new_CssBuilder])"
    by (intro chained_sim)
  then show ?thesis
    unfolding fluent_chained [OF ops(1)] fluent_chained [OF ops(2)]
    by (simp add: stringify_at_def)
qed

lemma chained_returns: "fst (chained cs r h) = Inr r' \<Longrightarrow> r' = r"
proof (induction cs arbitrary: h)
  case Nil
  then show ?case by simp
next
  case (Cons c cs)
  obtain res g where i: "invoke c r h = (res, g)" by (cases "invoke c r h")
  show ?case
  proof (cases res)
    case (Inl e)
    then show ?thesis using Cons.prems i by simp
  next
    case (Inr r0)
    then have "r0 = r" using invoke_returns_this [of c r h r0] i by simp
    then show ?thesis using Cons.prems Cons.IH i Inr by simp
  qed
qed

lemma fluent_returns: "fst (fluent c cs h) = Inr r \<Longrightarrow> r = length h"
proof -
  assume a: "fst (fluent c cs h) = Inr r"
  obtain res g where f: "cssSelectorBuilder c h = (res, g)" by (cases "cssSelectorBuilder c h")
  show ?thesis
  proof (cases res)
    case (Inl e)
    then show ?thesis using a f by (simp add: fluent_def)
  next
    case (Inr r0)
    then have "r0 = length h" using facade_fresh [of c h r0] f by simp
    moreover have "r = r0" using a f Inr chained_returns [of cs r0 g r] by (simp add: fluent_def)
    ultimately show ?thesis by simp
  qed
qed

text \<open>
  Claim C9. A call of the facade returns a reference that did not exist before, adds one
  builder to the heap and leaves every builder already there as it was. Any sequence of
  statements none of which is a method call on the builder \<open>r'\<close> leaves the state of
  \<open>r'\<close>, its fragments, its combined renderings and its \<open>stringify()\<close>, unchanged. A
  fluent expression of the facade gives the same outcome and a builder with the same
  \<open>stringify()\<close> in any two heaps in which its operands render alike: the facade keeps
  nothing from one call to the next.
\<close>

theorem builders_independent:
  "(fst (cssSelectorBuilder c h) = Inr r \<longrightarrow> r = length h) \<and>
   (fst (fluent c cs h) = Inr r \<longrightarrow> r = length h) \<and>
   length (snd (cssSelectorBuilder c h)) = Suc (length h) \<and>
   (r' < length h \<longrightarrow> snd (cssSelectorBuilder c h) ! r' = h ! r') \<and>
   (r' < length h \<and> (\<forall>s\<in>set ss. receiver s \<noteq> Some r') \<longrightarrow>
      run ss h ! r' = h ! r' \<and> stringify_at r' (run ss h) = stringify_at r' h) \<and>
   ((\<forall>i\<in>set (concat (map operands (c # cs))).
        i < length h \<and> i < length g \<and> stringify (h ! i) = stringify (g ! i)) \<longrightarrow>
      outcome (fst (fluent c cs h)) = outcome (fst (fluent c cs g)) \<and>
      stringify_at (length h) (snd (fluent c cs h)) =
        stringify_at (length g) (snd (fluent c cs g)))"
proof (intro conjI impI)
  assume "fst (cssSelectorBuilder c h) = Inr r"
  then show "r = length h" by (rule facade_fresh)
next
  assume "fst (fluent c cs h) = Inr r"
  then show "r = length h" by (rule fluent_returns)
next
  show "length (snd (cssSelectorBuilder c h)) = Suc (length h)" by (rule length_facade)
next
  assume "r' < length h"
  then show "snd (cssSelectorBuilder c h) ! r' = h ! r'" by (rule facade_frame)
next
  assume a: "r' < length h \<and> (\<forall>s\<in>set ss. receiver s \<noteq> Some r')"
  then show same: "run ss h ! r' = h ! r'" by (simp add: run_frame)
  have "r' < length (run ss h)"
    using a length_run [of h ss] by simp
  then show "stringify_at r' (run ss h) = stringify_at r' h"
    using a same by (simp add: stringify_at_def)
next
  assume a: "\<forall>i\<in>set (concat (map operands (c # cs))).
        i < length h \<and> i < length g \<and> stringify (h ! i) = stringify (g ! i)"
  from fluent_sim [OF a]
  show "outcome (fst (fluent c cs h)) = outcome (fst (fluent c cs g))"
    and "stringify_at (length h) (snd (fluent c cs h)) =
        stringify_at (length g) (snd (fluent c cs g))"
    by simp_all
qed

text \<open>
  The expression \<open>combine(0, '+', 1).class('x')\<close> evaluated twice in a row gives the
  builders 2 and 3 with the same rendering.
\<close>

theorem builders_independent_witness:
  "fst (cssSelectorBuilder (Combine 0 ''+'' 1)
      [\<lparr>selectors = [(K_element, Str ''div'')], complex = []\<rparr>,
       \<lparr>selectors = [(K_id, Str ''#a'')], complex = []\<rparr>]) = Inr 2 \<and>
   fst (fluent (Combine 0 ''+'' 1) [Fragment K_class ''x'']
      [\<lparr>selectors = [(K_element, Str ''div'')], complex = []\<rparr>,
       \<lparr>selectors = [(K_id, Str ''#a'')], complex = []\<rparr>]) = Inr 2 \<and>
   (0::nat) < length
      [\<lparr>selectors = [(K_element, Str ''div'')], complex = []\<rparr>,
       \<lparr>selectors = [(K_id, Str ''#a'')], complex = []\<rparr>] \<and>
   receiver (Method 1 (Fragment K_class ''c'')) \<noteq> Some 0 \<and>
   receiver (Facade (Combine 0 ''>'' 1)) \<noteq> Some 0 \<and>
   stringify_at 0 (run [Method 1 (Fragment K_class ''c''), Facade (Combine 0 ''>'' 1)]
      [\<lparr>selectors = [(K_element, Str ''div'')], complex = []\<rparr>,
       \<lparr>selectors = [(K_id, Str ''#a'')], complex = []\<rparr>]) = Inr ''div'' \<and>
   operands (Combine 0 ''+'' 1) = [0, 1] \<and> operands (Fragment K_class ''x'') = [] \<and>
   stringify
     ([\<lparr>selectors = [(K_element, Str ''div'')], complex = []\<rparr>,
       \<lparr>selectors = [(K_id, Str ''#a'')], complex = []\<rparr>] ! 0) =
   stringify
     ([\<lparr>selectors = [(K_element, Str ''div'')], complex = []\<rparr>,
       \<lparr>selectors = [(K_id, Str ''#a'')], complex = []\<rparr>,
       \<lparr>selectors = [(K_class, Arr [''.x''])], complex = [''div + #a'']\<rparr>] ! 0) \<and>
   stringify
     ([\<lparr>selectors = [(K_element, Str ''div'')], complex = []\<rparr>,
       \<lparr>selectors = [(K_id, Str ''#a'')], complex = []\<rparr>] ! 1) =
   stringify
     ([\<lparr>selectors = [(K_element, Str ''div'')], complex = []\<rparr>,
       \<lparr>selectors = [(K_id, Str ''#a'')], complex = []\<rparr>,
       \<lparr>selectors = [(K_class, Arr [''.x''])], complex = [''div + #a'']\<rparr>] ! 1) \<and>
   snd (fluent (Combine 0 ''+'' 1) [Fragment K_class ''x'']
      [\<lparr>selectors = [(K_element, Str ''div'')], complex = []\<rparr>,
       \<lparr>selectors = [(K_id, Str ''#a'')], complex = []\<rparr>]) =
      [\<lparr>selectors = [(K_element, Str ''div'')], complex = []\<rparr>,
       \<lparr>selectors = [(K_id, Str ''#a'')], complex = []\<rparr>,
       \<lparr>selectors = [(K_class, Arr [''.x''])], complex = [''div + #a'']\<rparr>] \<and>
   stringify_at 3 (snd (fluent (Combine 0 ''+'' 1) [Fragment K_class ''x'']
      [\<lparr>selectors = [(K_element, Str ''div'')], complex = []\<rparr>,
       \<lparr>selectors = [(K_id, Str ''#a'')], complex = []\<rparr>,
       \<lparr>selectors = [(K_class, Arr [''.x''])], complex = [''div + #a'']\<rparr>])) =
     Inr ''div + #a''"
proof -
  define h where "h = [\<lparr>selectors = [(K_element, Str ''div'')], complex = []\<rparr>,
       \<lparr>selectors = [(K_id, Str ''#a'')], complex = []\<rparr>]"
  define g where "g = [\<lparr>selectors = [(K_element, Str ''div'')], complex = []\<rparr>,
       \<lparr>selectors = [(K_id, Str ''#a'')], complex = []\<rparr>,
       \<lparr>selectors = [(K_class, Arr [''.x''])], complex = [''div + #a'']\<rparr>]"
  have f1: "fst (cssSelectorBuilder (Combine 0 ''+'' 1) h) = Inr 2"
    unfolding h_def by code_simp
  have f2: "fluent (Combine 0 ''+'' 1) [Fragment K_class ''x''] h = (Inr 2, g)"
    unfolding h_def g_def by code_simp
  have len: "(0::nat) < length h"
    by (simp add: h_def)
  have rec: "\<forall>s\<in>set [Method 1 (Fragment K_class ''c''), Facade (Combine 0 ''>'' 1)].
      receiver s \<noteq> Some 0"
    by simp
  have ops: "\<forall>i\<in>set (concat (map operands [Combine 0 ''+'' 1, Fragment K_class ''x''])).
      i < length h \<and> i < length g \<and> stringify (h ! i) = stringify (g ! i)"
    by (simp add: h_def g_def)
  note t = builders_independent [of "Combine 0 ''+'' 1" h 2 "[Fragment K_class ''x'']" 0
      "[Method 1 (Fragment K_class ''c''), Facade (Combine 0 ''>'' 1)]" g]
  have "stringify_at 0 (run [Method 1 (Fragment K_class ''c''), Facade (Combine 0 ''>'' 1)] h) =
      stringify_at 0 h"
    using t len rec by blast
  moreover have "stringify_at 0 h = Inr ''div''"
    by (simp add: h_def stringify_at_def stringify_def join_def Object_values_def)
  ultimately have c1: "stringify_at 0
      (run [Method 1 (Fragment K_class ''c''), Facade (Combine 0 ''>'' 1)] h) = Inr ''div''"
    by simp
  have "stringify_at (length h) (snd (fluent (Combine 0 ''+'' 1) [Fragment K_class ''x''] h)) =
      stringify_at (length g) (snd (fluent (Combine 0 ''+'' 1) [Fragment K_class ''x''] g))"
    using t ops by blast
  moreover have "stringify_at (length h) (snd (fluent (Combine 0 ''+'' 1) [Fragment K_class ''x''] h)) =
      Inr ''div + #a''"
    unfolding f2 by (simp add: h_def g_def stringify_at_def stringify_def join_def)
  moreover have "length g = 3"
    by (simp add: g_def)
  ultimately have c2: "stringify_at 3
      (snd (fluent (Combine 0 ''+'' 1) [Fragment K_class ''x''] g)) = Inr ''div + #a''"
    by simp
  have f3: "fst (fluent (Combine 0 ''+'' 1) [Fragment K_class ''x''] h) = Inr 2"
    and f4: "snd (fluent (Combine 0 ''+'' 1) [Fragment K_class ''x''] h) = g"
    using f2 by simp_all
  have rec': "receiver (Method 1 (Fragment K_class ''c'')) \<noteq> Some 0"
    "receiver (Facade (Combine 0 ''>'' 1)) \<noteq> Some 0"
    by simp_all
  have ops': "operands (Combine 0 ''+'' 1) = [0, 1]" "operands (Fragment K_class ''x'') = []"
    "stringify (h ! 0) = stringify (g ! 0)" "stringify (h ! 1) = stringify (g ! 1)"
    by (simp_all add: h_def g_def)
  show ?thesis
    using f1 f3 f4 len rec' c1 ops' c2 unfolding h_def g_def by (intro conjI)
qed

subsection \<open>Fragments on a combined builder\<close>

lemma complex_insert_each: "complex (insert_each fs this) = complex this"
proof (induction fs arbitrary: this)
  case Nil
  show ?case by simp
next
  case (Cons f fs)
  obtain k v where "f = (k, v)" by (cases f)
  then show ?case
    using Cons.IH by (simp add: complex_fragment_method)
qed

lemma checkPosition_complex: "checkPosition (this\<lparr>complex := cs\<rparr>) = checkPosition this"
  by (rule checkPosition_keys) simp

lemma fragment_method_complex:
  "fragment_method k v (this\<lparr>complex := cs\<rparr>) =
     (fst (fragment_method k v this), (snd (fragment_method k v this))\<lparr>complex := cs\<rparr>)"
proof (cases "singular k")
  case True
  have "checkPosition (this\<lparr>complex := cs, selectors := x\<rparr>) =
        checkPosition (this\<lparr>selectors := x\<rparr>)" for x
    by (rule checkPosition_keys) simp
  then show ?thesis
    using True by (simp add: fragment_method_singular)
next
  case False
  have "checkPosition (this\<lparr>complex := cs, selectors := x\<rparr>) =
        checkPosition (this\<lparr>selectors := x\<rparr>)" for x
    by (rule checkPosition_keys) simp
  then show ?thesis
    using False by (simp add: fragment_method_repeatable split: option.splits entry.splits)
qed

lemma insert_all_complex:
  "insert_all fs (this\<lparr>complex := cs\<rparr>) =
     (fst (insert_all fs this), (snd (insert_all fs this))\<lparr>complex := cs\<rparr>)"
proof (induction fs arbitrary: this)
  case Nil
  show ?case by simp
next
  case (Cons f fs)
  obtain k v where f: "f = (k, v)" by (cases f)
  obtain res b where m: "fragment_method k v this = (res, b)" by (cases "fragment_method k v this")
  show ?case
    using Cons.IH [of b] f m by (cases res) (simp_all add: fragment_method_complex)
qed

lemma insert_all_append:
  "insert_all (fs @ fs') this =
     (case insert_all fs this of
        (Inl e, this') \<Rightarrow> (Inl e, this')
      | (Inr u, this') \<Rightarrow> insert_all fs' this')"
proof (induction fs arbitrary: this)
  case Nil
  show ?case by simp
next
  case (Cons f fs)
  obtain k v where f: "f = (k, v)" by (cases f)
  obtain res b where m: "fragment_method k v this = (res, b)" by (cases "fragment_method k v this")
  show ?case
    using Cons.IH [of b] f m by (cases res) simp_all
qed

lemma insert_all_new_in_order:
  assumes "sorted_wrt in_order (map fst fs)"
  shows "fst (insert_all fs new_CssBuilder) = Inr ()"
proof -
  have "\<forall>k'\<in>set (Object_keys (selectors new_CssBuilder)). \<forall>k\<in>set (map fst fs). in_order k' k"
    by (simp add: new_CssBuilder_def Object_keys_def)
  from insert_all_in_order [OF canonical_new assms this] show ?thesis
    by simp
qed

lemma insert_all_around_combine:
  assumes "respects_order (fs @ fs')"
  shows "fst (insert_all fs new_CssBuilder) = Inr () \<and>
         fst (insert_all fs' (combine item1 t item2 (snd (insert_all fs new_CssBuilder)))) = Inr ()"
proof -
  have all: "sorted_wrt in_order (map fst (fs @ fs'))"
    using assms by (simp add: respects_order_def)
  then have "sorted_wrt in_order (map fst fs)"
    by (simp add: sorted_wrt_append)
  then have first: "fst (insert_all fs new_CssBuilder) = Inr ()"
    by (rule insert_all_new_in_order)
  obtain b where b: "insert_all fs new_CssBuilder = (Inr (), b)"
    using first by (cases "insert_all fs new_CssBuilder") simp
  have "fst (insert_all (fs @ fs') new_CssBuilder) = Inr ()"
    using all by (rule insert_all_new_in_order)
  then have "fst (insert_all fs' b) = Inr ()"
    using b by (simp add: insert_all_append)
  moreover have "combine item1 t item2 b =
      b\<lparr>complex := complex b @ [stringify item1 @ '' '' @ t @ '' '' @ stringify item2]\<rparr>"
    by (simp add: combine_def)
  ultimately have "fst (insert_all fs' (combine item1 t item2 b)) = Inr ()"
    by (simp add: insert_all_complex)
  then show ?thesis
    using first b by simp
qed

text \<open>
  Claim C10 says that fragment calls on a builder on which \<open>combine\<close> has been called
  still succeed. On \<open>combine(a, '+', b)\<close> the call \<open>class('c')\<close> returns, and the call
  \<open>id('i')\<close> after it raises the order error.
\<close>

theorem fragment_on_combined_counterexample:
  "complex (combine (snd (element ''a'' new_CssBuilder)) ''+'' (snd (element ''b'' new_CssBuilder))
      new_CssBuilder) = [''a + b''] \<and>
   fst (class_m ''c''
     (combine (snd (element ''a'' new_CssBuilder)) ''+'' (snd (element ''b'' new_CssBuilder))
        new_CssBuilder)) = Inr () \<and>
   fst (id_m ''i'' (snd (class_m ''c''
     (combine (snd (element ''a'' new_CssBuilder)) ''+'' (snd (element ''b'' new_CssBuilder))
        new_CssBuilder)))) = Inl PositionError"
  by code_simp

text \<open>
  Claim C10, as the code has it. Once \<open>combine\<close> has been called on a builder,
  \<open>stringify()\<close> returns the concatenation of its combined renderings only: the fragment
  calls \<open>fs\<close> made before the \<open>combine\<close> call and \<open>fs'\<close> made after it, whether they
  raised or not, do not show. A fragment call does not look at \<open>complex\<close>: on a builder
  with combined renderings it is checked as on the same builder without them, with the
  same outcome and the same change to \<open>selectors\<close>. So calls that respect the canonical
  order return before and after \<open>combine\<close>, and a call that returns gives back the
  builder it was called on.
\<close>

theorem combined_ignores_fragments:
  "stringify (insert_each fs' (combine item1 t item2 (insert_each fs this))) =
     concat (complex this @ [stringify item1 @ '' '' @ t @ '' '' @ stringify item2]) \<and>
   (complex this \<noteq> [] \<longrightarrow> stringify (insert_each fs this) = concat (complex this)) \<and>
   fragment_method k v (this\<lparr>complex := cs\<rparr>) =
     (fst (fragment_method k v this), (snd (fragment_method k v this))\<lparr>complex := cs\<rparr>) \<and>
   (respects_order (fs @ fs') \<longrightarrow>
      fst (insert_all fs new_CssBuilder) = Inr () \<and>
      fst (insert_all fs' (combine item1 t item2 (snd (insert_all fs new_CssBuilder)))) = Inr ()) \<and>
   (r < length h \<and> fst (fragment_method k v (h ! r)) = Inr () \<longrightarrow>
      fst (invoke (Fragment k v) r h) = Inr r)"
proof (intro conjI impI)
  have "complex (insert_each fs' (combine item1 t item2 (insert_each fs this))) =
      complex this @ [stringify item1 @ '' '' @ t @ '' '' @ stringify item2]"
    by (simp add: complex_insert_each combine_def)
  then show "stringify (insert_each fs' (combine item1 t item2 (insert_each fs this))) =
     concat (complex this @ [stringify item1 @ '' '' @ t @ '' '' @ stringify item2])"
    by (simp add: stringify_complex)
next
  assume "complex this \<noteq> []"
  then show "stringify (insert_each fs this) = concat (complex this)"
    by (simp add: stringify_complex complex_insert_each)
next
  show "fragment_method k v (this\<lparr>complex := cs\<rparr>) =
     (fst (fragment_method k v this), (snd (fragment_method k v this))\<lparr>complex := cs\<rparr>)"
    by (rule fragment_method_complex)
next
  assume a: "respects_order (fs @ fs')"
  from insert_all_around_combine [OF a]
  show "fst (insert_all fs new_CssBuilder) = Inr ()"
    and "fst (insert_all fs' (combine item1 t item2 (snd (insert_all fs new_CssBuilder)))) = Inr ()"
    by simp_all
next
  assume "r < length h \<and> fst (fragment_method k v (h ! r)) = Inr ()"
  then show "fst (invoke (Fragment k v) r h) = Inr r"
    by (simp add: invoke_Fragment)
qed

text \<open>Fragments added to \<open>combine(a, '+', b)\<close>, and around such a call.\<close>

theorem combined_ignores_fragments_witness:
  "complex (combine (snd (element ''a'' new_CssBuilder)) ''+'' (snd (element ''b'' new_CssBuilder))
      new_CssBuilder) \<noteq> [] \<and>
   stringify (insert_each [(K_element, ''div''), (K_class, ''c'')]
     (combine (snd (element ''a'' new_CssBuilder)) ''+'' (snd (element ''b'' new_CssBuilder))
        new_CssBuilder)) = ''a + b'' \<and>
   respects_order ([(K_element, ''div'')] @ [(K_class, ''c'')]) \<and>
   fst (insert_all [(K_class, ''c'')]
     (combine (snd (element ''a'' new_CssBuilder)) ''+'' (snd (element ''b'' new_CssBuilder))
        (snd (insert_all [(K_element, ''div'')] new_CssBuilder)))) = Inr () \<and>
   stringify (insert_each [(K_class, ''c'')]
     (combine (snd (element ''a'' new_CssBuilder)) ''+'' (snd (element ''b'' new_CssBuilder))
        (insert_each [(K_element, ''div'')] new_CssBuilder))) = ''a + b'' \<and>
   (0::nat) < length [combine (snd (element ''a'' new_CssBuilder)) ''+''
       (snd (element ''b'' new_CssBuilder)) new_CssBuilder] \<and>
   fst (fragment_method K_element ''div''
     ([combine (snd (element ''a'' new_CssBuilder)) ''+'' (snd (element ''b'' new_CssBuilder))
        new_CssBuilder] ! 0)) = Inr () \<and>
   fst (invoke (Fragment K_element ''div'') 0
     [combine (snd (element ''a'' new_CssBuilder)) ''+'' (snd (element ''b'' new_CssBuilder))
        new_CssBuilder]) = Inr 0"
proof -
  define A where "A = snd (element ''a'' new_CssBuilder)"
  define B where "B = snd (element ''b'' new_CssBuilder)"
  define C where "C = combine A ''+'' B new_CssBuilder"
  have C: "C = \<lparr>selectors = [], complex = [''a + b'']\<rparr>"
    unfolding C_def A_def B_def by code_simp
  have cx: "complex C \<noteq> []" "concat (complex C) = ''a + b''"
    by (simp_all add: C)
  have ro: "respects_order ([(K_element, ''div'')] @ [(K_class, ''c'')])"
    by (simp add: respects_order_def in_order_def position_simps)
  have ok: "(0::nat) < length [C] \<and> fst (fragment_method K_element ''div'' ([C] ! 0)) = Inr ()"
    unfolding C by code_simp
  have sA: "stringify A = ''a''" and sB: "stringify B = ''b''"
    unfolding A_def B_def by code_simp+
  note t1 = combined_ignores_fragments
    [where fs = "[(K_element, ''div''), (K_class, ''c'')]" and this = C and k = K_element
       and v = "''div''" and r = 0 and h = "[C]"]
  note t2 = combined_ignores_fragments
    [where fs = "[(K_element, ''div'')]" and fs' = "[(K_class, ''c'')]" and this = new_CssBuilder
       and ?item1.0 = A and t = "''+''" and ?item2.0 = B]
  have "stringify (insert_each [(K_element, ''div''), (K_class, ''c'')] C) = concat (complex C)"
    using t1 [THEN conjunct2, THEN conjunct1] cx(1) by (rule mp)
  then have c1: "stringify (insert_each [(K_element, ''div''), (K_class, ''c'')] C) = ''a + b''"
    unfolding cx(2) .
  have c2: "fst (insert_all [(K_class, ''c'')]
      (combine A ''+'' B (snd (insert_all [(K_element, ''div'')] new_CssBuilder)))) = Inr ()"
    using t2 [THEN conjunct2, THEN conjunct2, THEN conjunct2, THEN conjunct1, THEN mp, OF ro]
    by (rule conjunct2)
  have "stringify (insert_each [(K_class, ''c'')]
      (combine A ''+'' B (insert_each [(K_element, ''div'')] new_CssBuilder))) =
      concat (complex new_CssBuilder @ [stringify A @ '' '' @ ''+'' @ '' '' @ stringify B])"
    using t2 by (rule conjunct1)
  then have c3: "stringify (insert_each [(K_class, ''c'')]
      (combine A ''+'' B (insert_each [(K_element, ''div'')] new_CssBuilder))) = ''a + b''"
    unfolding sA sB by (simp add: new_CssBuilder_def)
  have c4: "fst (invoke (Fragment K_element ''div'') 0 [C]) = Inr 0"
    using t1 [THEN conjunct2, THEN conjunct2, THEN conjunct2, THEN conjunct2] ok by (rule mp)
  show ?thesis
    using cx(1) c1 ro c2 c3 ok c4 unfolding C_def A_def B_def by (intro conjI) simp_all
qed

subsection \<open>The round trip of a rectangle\<close>

text \<open>
  Claim C7 says that for every rectangle-like object \<open>{width, height}\<close> the instance
  that \<open>fromJSON(Rectangle.prototype, getJSON({width, height}))\<close> constructs has the area
  \<open>width * height\<close>. For the width \<open>Infinity\<close> and the height 2 the area of the
  rectangle is \<open>Infinity\<close>; \<open>getJSON\<close> writes the width as \<open>null\<close>, the constructor
  receives \<open>null\<close>, and the area of the instance is 0.
\<close>

theorem rectangle_round_trip_counterexample:
  "getArea (Rectangle_constructor [Number PosInfinity, Number (Finite 2)]) = PosInfinity \<and>
   getJSON [(''width'', Number PosInfinity), (''height'', Number (Finite 2))] =
     [(''width'', JSON_null), (''height'', JSON_numeral 2)] \<and>
   getArea (fromJSON Rectangle_prototype
      (getJSON [(''width'', Number PosInfinity), (''height'', Number (Finite 2))])) = Finite 0"
  by (simp add: getArea_def Rectangle_constructor_def getJSON_def fromJSON_def
      Rectangle_prototype_def Object_values_plain_def)

text \<open>
  Claim C7, as the code has it. For every rectangle-like object whose width and height
  are finite numbers \<open>w\<close> and \<open>h\<close>, with the keys in the order \<open>width\<close>, \<open>height\<close> of the
  constructor's parameters, \<open>fromJSON(Rectangle.prototype, getJSON({width, height}))\<close>
  constructs the rectangle of that width and height; its \<open>getArea()\<close> is \<open>w * h\<close>, the
  area of \<open>new Rectangle(w, h)\<close>. The arguments are passed by position: with the keys in
  the order \<open>height\<close>, \<open>width\<close> the constructor takes the height for the width.
\<close>

theorem rectangle_round_trip:
  "fromJSON Rectangle_prototype
      (getJSON [(''width'', Number (Finite w)), (''height'', Number (Finite h))]) =
     \<lparr>width = Number (Finite w), height = Number (Finite h)\<rparr> \<and>
   getArea (fromJSON Rectangle_prototype
      (getJSON [(''width'', Number (Finite w)), (''height'', Number (Finite h))])) =
     multiply (Finite w) (Finite h) \<and>
   getArea (fromJSON Rectangle_prototype
      (getJSON [(''width'', Number (Finite w)), (''height'', Number (Finite h))])) =
     getArea (Rectangle_constructor [Number (Finite w), Number (Finite h)]) \<and>
   fromJSON Rectangle_prototype
      (getJSON [(''height'', Number (Finite h)), (''width'', Number (Finite w))]) =
     \<lparr>width = Number (Finite h), height = Number (Finite w)\<rparr>"
  by (simp add: getArea_def Rectangle_constructor_def getJSON_def fromJSON_def
      Rectangle_prototype_def Object_values_plain_def)

text \<open>The rectangle 10 by 20 of the source's example has the area 200 after the round trip.\<close>

theorem rectangle_round_trip_witness:
  "getArea (fromJSON Rectangle_prototype
      (getJSON [(''width'', Number (Finite 10)), (''height'', Number (Finite 20))])) = Finite 200"
proof -
  have "getArea (fromJSON Rectangle_prototype
      (getJSON [(''width'', Number (Finite 10)), (''height'', Number (Finite 20))])) =
      multiply (Finite 10) (Finite 20)"
    using rectangle_round_trip [of 10 20] by blast
  then show ?thesis
    by simp
qed

end
